theory Spec2Isabelle
  imports Main "HOL-Library.Word"
begin

unbundle bit_operations_syntax

section \<open>Wire codec: \<open>Transmitter.encodeString\<close>\<close>

text \<open>
  A Node \<open>Buffer\<close> is a list of bytes. JavaScript's bitwise operators work on the
  32-bit two's complement image of a number (\<open>ToInt32\<close>), so the length is read as a
  \<open>32 word\<close> wherever \<open>|\<close>, \<open>>>\<close> or \<open>&\<close> touch it; \<open>>>\<close> is the arithmetic shift
  \<open>signed_drop_bit\<close>. A store into a \<open>Buffer\<close> keeps the low eight bits of the value
  and is ignored out of range.
\<close>

type_synonym byte = "8 word"
type_synonym buffer = "byte list"
type_synonym int32 = "32 word"

definition Buffer_alloc :: "nat \<Rightarrow> buffer" where
  "Buffer_alloc n = replicate n 0"

definition buffer_store :: "buffer \<Rightarrow> nat \<Rightarrow> int32 \<Rightarrow> buffer" where
  "buffer_store data i v = (if i < length data then data[i := ucast v] else data)"

text \<open>
  \<open>data.fill(value, offset)\<close> with a \<open>Buffer\<close> value: nothing to do when \<open>offset\<close> is
  the end of \<open>data\<close>; otherwise the bytes from \<open>offset\<close> on are overwritten with
  \<open>value\<close>, repeated as often as needed. Node throws for an offset beyond the end and
  for an empty value (\<open>None\<close> here).
\<close>

definition Buffer_fill :: "buffer \<Rightarrow> buffer \<Rightarrow> nat \<Rightarrow> buffer option" where
  "Buffer_fill data val offset =
     (if length data < offset then None
      else if offset = length data then Some data
      else if val = [] then None
      else Some (take offset data @
                 map (\<lambda>i. val ! (i mod length val)) [0..<length data - offset]))"

text \<open>
  \<open>encodeString(str)\<close>. The character encoder \<open>iconv.encode(str, 'win1252')\<close> belongs
  to a library outside the repository and is a parameter. \<open>str === null\<close> is \<open>None\<close>;
  the one-character string it returns reaches the socket as the single byte 0.
\<close>

definition encodeString :: "('s \<Rightarrow> buffer) \<Rightarrow> 's option \<Rightarrow> buffer option" where
  "encodeString iconv_encode str =
     (case str of
        None \<Rightarrow> Some [0]
      | Some s \<Rightarrow>
          (let encoded = iconv_encode s;
               len = length encoded
           in if len < 0x80 then
                (let data = Buffer_alloc (len + 1);
                     data = buffer_store data 0 (word_of_nat len)
                 in Buffer_fill data encoded 1)
              else if len < 0x4000 then
                (let data = Buffer_alloc (len + 2);
                     len' = (word_of_nat len :: int32) OR 0x8000;
                     data = buffer_store data 0 (signed_drop_bit 8 len' AND 0xff);
                     data = buffer_store data 1 (len' AND 0xff)
                 in Buffer_fill data encoded 2)
              else if len < 0x200000 then
                (let data = Buffer_alloc (len + 3);
                     len' = (word_of_nat len :: int32) OR 0xc00000;
                     data = buffer_store data 0 (signed_drop_bit 16 len' AND 0xff);
                     data = buffer_store data 1 (signed_drop_bit 8 len' AND 0xff);
                     data = buffer_store data 2 (len' AND 0xff)
                 in Buffer_fill data encoded 3)
              else if len < 0x10000000 then
                (let data = Buffer_alloc (len + 4);
                     len' = (word_of_nat len :: int32) OR 0xe0000000;
                     data = buffer_store data 0 (signed_drop_bit 24 len' AND 0xff);
                     data = buffer_store data 1 (signed_drop_bit 16 len' AND 0xff);
                     data = buffer_store data 2 (signed_drop_bit 8 len' AND 0xff);
                     data = buffer_store data 3 (len' AND 0xff)
                 in Buffer_fill data encoded 4)
              else
                (let data = Buffer_alloc (len + 5);
                     len' = (word_of_nat len :: int32);
                     data = buffer_store data 0 0xf0;
                     data = buffer_store data 1 (signed_drop_bit 24 len' AND 0xff);
                     data = buffer_store data 2 (signed_drop_bit 16 len' AND 0xff);
                     data = buffer_store data 3 (signed_drop_bit 8 len' AND 0xff);
                     data = buffer_store data 4 (len' AND 0xff)
                 in Buffer_fill data encoded 5)))"

text \<open>
  The specification's side: the \<open>k\<close>-byte big-endian image of a number, most
  significant byte first, each byte being the number shifted down, modulo 256.
\<close>

fun be_bytes :: "nat \<Rightarrow> nat \<Rightarrow> byte list" where
  "be_bytes 0 n = []"
| "be_bytes (Suc k) n = word_of_nat (n div 256 ^ k) # be_bytes k n"

subsection \<open>Bytes of the length\<close>

lemma ff_mask: "(0xff :: int32) = mask 8"
  by (simp add: mask_eq_exp_minus_1)

lemma byte_of_shift:
  "i < 4 \<Longrightarrow>
   (ucast (signed_drop_bit (8 * i) (w :: int32) AND 0xff) :: byte) = ucast (drop_bit (8 * i) w)"
  unfolding ff_mask
  by (rule bit_word_eqI) (auto simp: bit_simps)

lemma byte_of_low: "(ucast ((w :: int32) AND 0xff) :: byte) = ucast w"
  unfolding ff_mask
  by (rule bit_word_eqI) (auto simp: bit_simps)

lemma pow256: "(256::nat) ^ i = 2 ^ (8 * i)"
  by (simp add: power_mult)

lemma ucast_drop_nat:
  "i < 4 \<Longrightarrow>
   (ucast (drop_bit (8 * i) (word_of_nat n :: int32)) :: byte) = word_of_nat (n div 256 ^ i)"
  unfolding pow256 drop_bit_eq_div [symmetric]
  by (rule bit_word_eqI) (auto simp: bit_simps)

lemma ucast_of_nat_byte: "(ucast (word_of_nat n :: int32) :: byte) = word_of_nat n"
  by (rule bit_word_eqI) (auto simp: bit_simps)

lemma or_const: "(word_of_nat n :: int32) OR numeral k = word_of_nat (n OR numeral k)"
  by (simp add: of_nat_or_eq)

lemma byte_i:
  "i < 4 \<Longrightarrow>
   (ucast (signed_drop_bit (8 * i) (word_of_nat n :: int32) AND 0xff) :: byte)
     = word_of_nat (n div 256 ^ i)"
  by (simp only: byte_of_shift ucast_drop_nat)

lemma byte_0: "(ucast ((word_of_nat n :: int32) AND 0xff) :: byte) = word_of_nat n"
  by (simp only: byte_of_low ucast_of_nat_byte)

lemma byte_1:
  "(ucast (signed_drop_bit 8 (word_of_nat n :: int32) AND 0xff) :: byte) = word_of_nat (n div 256)"
  using byte_i [of 1 n] by simp

lemma byte_2:
  "(ucast (signed_drop_bit 16 (word_of_nat n :: int32) AND 0xff) :: byte)
     = word_of_nat (n div 256 ^ 2)"
  using byte_i [of 2 n] by simp

lemma byte_3:
  "(ucast (signed_drop_bit 24 (word_of_nat n :: int32) AND 0xff) :: byte)
     = word_of_nat (n div 256 ^ 3)"
  using byte_i [of 3 n] by simp

lemma be_bytes_1: "be_bytes 1 n = [word_of_nat n]"
  by simp

lemma be_bytes_2: "be_bytes 2 n = [word_of_nat (n div 256), word_of_nat n]"
proof -
  have "(2::nat) = Suc (Suc 0)" by simp
  then show ?thesis by (simp only: be_bytes.simps) simp
qed

lemma be_bytes_3:
  "be_bytes 3 n = [word_of_nat (n div 256 ^ 2), word_of_nat (n div 256), word_of_nat n]"
proof -
  have "(3::nat) = Suc (Suc (Suc 0))" by simp
  then show ?thesis by (simp only: be_bytes.simps) (simp add: numeral_2_eq_2)
qed

lemma be_bytes_4:
  "be_bytes 4 n = [word_of_nat (n div 256 ^ 3), word_of_nat (n div 256 ^ 2),
                   word_of_nat (n div 256), word_of_nat n]"
proof -
  have "(4::nat) = Suc (Suc (Suc (Suc 0)))" by simp
  then show ?thesis by (simp only: be_bytes.simps) (simp add: numeral_2_eq_2 numeral_3_eq_3)
qed

subsection \<open>The buffer that is filled\<close>

lemma alloc_Suc: "Buffer_alloc (Suc n) = 0 # Buffer_alloc n"
  by (simp add: Buffer_alloc_def)

lemma alloc_len: "length (Buffer_alloc n) = n"
  by (simp add: Buffer_alloc_def)

lemma alloc_plus:
  "Buffer_alloc (n + 3) = 0 # 0 # 0 # Buffer_alloc n"
  "Buffer_alloc (n + 4) = 0 # 0 # 0 # 0 # Buffer_alloc n"
  "Buffer_alloc (n + 5) = 0 # 0 # 0 # 0 # 0 # Buffer_alloc n"
proof -
  have e: "n + 3 = Suc (Suc (Suc n))" "n + 4 = Suc (Suc (Suc (Suc n)))"
    "n + 5 = Suc (Suc (Suc (Suc (Suc n))))"
    by simp_all
  show "Buffer_alloc (n + 3) = 0 # 0 # 0 # Buffer_alloc n"
    "Buffer_alloc (n + 4) = 0 # 0 # 0 # 0 # Buffer_alloc n"
    "Buffer_alloc (n + 5) = 0 # 0 # 0 # 0 # 0 # Buffer_alloc n"
    by (simp_all only: e alloc_Suc)
qed

lemma store_0: "buffer_store (x # xs) 0 v = ucast v # xs"
  by (simp add: buffer_store_def)

lemma store_Suc: "buffer_store (x # xs) (Suc i) v = x # buffer_store xs i v"
  by (simp add: buffer_store_def)

lemma store_num:
  "buffer_store (x # xs) 1 v = x # buffer_store xs 0 v"
  "buffer_store (x # xs) 2 v = x # buffer_store xs 1 v"
  "buffer_store (x # xs) 3 v = x # buffer_store xs 2 v"
  "buffer_store (x # xs) 4 v = x # buffer_store xs 3 v"
  by (simp_all add: buffer_store_def nth_Cons')

lemma fill_payload:
  "length pre = k \<Longrightarrow> length rest = length enc \<Longrightarrow>
   Buffer_fill (pre @ rest) enc k = Some (pre @ enc)"
  by (auto simp: Buffer_fill_def intro!: nth_equalityI)

lemma fill_1: "length r = length e \<Longrightarrow> Buffer_fill (a # r) e (Suc 0) = Some (a # e)"
  using fill_payload [of "[a]" 1 r e] by simp

lemma fill_2: "length r = length e \<Longrightarrow> Buffer_fill (a # b # r) e 2 = Some (a # b # e)"
  using fill_payload [of "[a, b]" 2 r e] by simp

lemma fill_3:
  "length r = length e \<Longrightarrow> Buffer_fill (a # b # c # r) e 3 = Some (a # b # c # e)"
  using fill_payload [of "[a, b, c]" 3 r e] by simp

lemma fill_4:
  "length r = length e \<Longrightarrow> Buffer_fill (a # b # c # d # r) e 4 = Some (a # b # c # d # e)"
  using fill_payload [of "[a, b, c, d]" 4 r e] by simp

lemma fill_5:
  "length r = length e \<Longrightarrow>
   Buffer_fill (a # b # c # d # f # r) e 5 = Some (a # b # c # d # f # e)"
  using fill_payload [of "[a, b, c, d, f]" 5 r e] by simp

lemmas enc_simps = ucast_of_nat_byte alloc_plus alloc_Suc alloc_len store_0 store_Suc store_num
  fill_1 fill_2 fill_3 fill_4 fill_5 byte_0 byte_1 byte_2 byte_3 or_const
  be_bytes_1 be_bytes_2 be_bytes_3 be_bytes_4

lemma encodeString_1:
  assumes "length (enc s) < 0x80"
  shows "encodeString enc (Some s) = Some (be_bytes 1 (length (enc s)) @ enc s)"
  using assms by (simp add: encodeString_def Let_def enc_simps)

lemma encodeString_2:
  assumes "0x80 \<le> length (enc s)" "length (enc s) < 0x4000"
  shows "encodeString enc (Some s) = Some (be_bytes 2 (length (enc s) OR 0x8000) @ enc s)"
  using assms by (simp add: encodeString_def Let_def enc_simps)

lemma encodeString_3:
  assumes "0x4000 \<le> length (enc s)" "length (enc s) < 0x200000"
  shows "encodeString enc (Some s) = Some (be_bytes 3 (length (enc s) OR 0xC00000) @ enc s)"
  using assms by (simp add: encodeString_def Let_def enc_simps)

lemma encodeString_4:
  assumes "0x200000 \<le> length (enc s)" "length (enc s) < 0x10000000"
  shows "encodeString enc (Some s) = Some (be_bytes 4 (length (enc s) OR 0xE0000000) @ enc s)"
  using assms by (simp add: encodeString_def Let_def enc_simps)

lemma encodeString_5:
  assumes "0x10000000 \<le> length (enc s)"
  shows "encodeString enc (Some s) = Some (0xF0 # be_bytes 4 (length (enc s)) @ enc s)"
  using assms by (simp add: encodeString_def Let_def enc_simps)

text \<open>
  Claim C1. For every word, with \<open>L\<close> the length of its win1252 encoding, the encoder
  returns (and never throws) a prefix chosen by \<open>L\<close>, followed by exactly the \<open>L\<close>
  encoded bytes: one byte \<open>L\<close> below \<open>0x80\<close>; the two big-endian bytes of \<open>L|0x8000\<close>
  below \<open>0x4000\<close>; the three of \<open>L|0xC00000\<close> below \<open>0x200000\<close>; the four of
  \<open>L|0xE0000000\<close> below \<open>0x10000000\<close>; and from \<open>0x10000000\<close> on the marker \<open>0xF0\<close>
  and the four big-endian bytes of \<open>L\<close>.
\<close>

theorem encodeString_length_prefix:
  "(length (enc s) < 0x80 \<longrightarrow>
      encodeString enc (Some s) = Some (be_bytes 1 (length (enc s)) @ enc s)) \<and>
   (0x80 \<le> length (enc s) \<and> length (enc s) < 0x4000 \<longrightarrow>
      encodeString enc (Some s) = Some (be_bytes 2 (length (enc s) OR 0x8000) @ enc s)) \<and>
   (0x4000 \<le> length (enc s) \<and> length (enc s) < 0x200000 \<longrightarrow>
      encodeString enc (Some s) = Some (be_bytes 3 (length (enc s) OR 0xC00000) @ enc s)) \<and>
   (0x200000 \<le> length (enc s) \<and> length (enc s) < 0x10000000 \<longrightarrow>
      encodeString enc (Some s) = Some (be_bytes 4 (length (enc s) OR 0xE0000000) @ enc s)) \<and>
   (0x10000000 \<le> length (enc s) \<longrightarrow>
      encodeString enc (Some s) = Some (0xF0 # be_bytes 4 (length (enc s)) @ enc s))"
  using encodeString_1 [of enc s] encodeString_2 [of enc s] encodeString_3 [of enc s]
    encodeString_4 [of enc s] encodeString_5 [of enc s]
  by blast

text \<open>
  The theorem at one length of each range (the payload is a run of the letter a, so
  that the lengths at the upper ranges stay symbolic).
\<close>

theorem encodeString_length_prefix_witness:
  "encodeString (\<lambda>n. replicate n (0x61 :: byte)) (Some 3) = Some ([3] @ replicate 3 0x61) \<and>
   encodeString (\<lambda>n. replicate n (0x61 :: byte)) (Some 0x80)
      = Some ([0x80, 0x80] @ replicate 0x80 0x61) \<and>
   encodeString (\<lambda>n. replicate n (0x61 :: byte)) (Some 0x4000)
      = Some ([0xC0, 0x40, 0] @ replicate 0x4000 0x61) \<and>
   encodeString (\<lambda>n. replicate n (0x61 :: byte)) (Some 0x200000)
      = Some ([0xE0, 0x20, 0, 0] @ replicate 0x200000 0x61) \<and>
   encodeString (\<lambda>n. replicate n (0x61 :: byte)) (Some 0x10000000)
      = Some ([0xF0, 0x10, 0, 0, 0] @ replicate 0x10000000 0x61)"
proof -
  let ?enc = "\<lambda>n. replicate n (0x61 :: byte)"
  have a: "encodeString ?enc (Some 3) = Some ([3] @ replicate 3 0x61)"
    using encodeString_length_prefix [of ?enc 3] by (simp add: be_bytes_1)
  have b: "encodeString ?enc (Some 0x80) = Some ([0x80, 0x80] @ replicate 0x80 0x61)"
    using encodeString_length_prefix [of ?enc "0x80"]
    by (simp add: be_bytes_2 del: be_bytes.simps)
  have c: "encodeString ?enc (Some 0x4000) = Some ([0xC0, 0x40, 0] @ replicate 0x4000 0x61)"
    using encodeString_length_prefix [of ?enc "0x4000"]
    by (simp add: be_bytes_3 del: be_bytes.simps)
  have d: "encodeString ?enc (Some 0x200000)
             = Some ([0xE0, 0x20, 0, 0] @ replicate 0x200000 0x61)"
    using encodeString_length_prefix [of ?enc "0x200000"]
    by (simp add: be_bytes_4 del: be_bytes.simps)
  have e: "encodeString ?enc (Some 0x10000000)
             = Some ([0xF0, 0x10, 0, 0, 0] @ replicate 0x10000000 0x61)"
    using encodeString_length_prefix [of ?enc "0x10000000"]
    by (simp add: be_bytes_4 del: be_bytes.simps)
  from a b c d e show ?thesis by blast
qed

section \<open>Connection options: the default ports\<close>

text \<open>
  The options object of \<open>RouterOSAPI\<close> and \<open>Connector\<close>. A missing property is
  \<open>None\<close>; \<open>tls\<close> may be missing, \<open>null\<close>, a boolean or an object of TLS options.
  JavaScript's truthiness of a number or \<open>undefined\<close> decides \<open>options.port || 8728\<close>
  and \<open>if (options.port)\<close>.
\<close>

datatype js_tls = TlsUndefined | TlsNull | TlsBoolean bool | TlsObject "(string \<times> string) list"

record ros_options =
  opt_host :: string
  opt_port :: "nat option"
  opt_timeout :: "nat option"
  opt_tls :: js_tls

definition truthy :: "nat option \<Rightarrow> bool" where
  "truthy v = (case v of None \<Rightarrow> False | Some n \<Rightarrow> n \<noteq> 0)"

definition or_default :: "nat option \<Rightarrow> nat \<Rightarrow> nat" where
  "or_default v d = (case v of None \<Rightarrow> d | Some n \<Rightarrow> if n \<noteq> 0 then n else d)"

record session_options =
  api_host :: string
  api_port :: nat
  api_timeout :: nat
  api_tls :: js_tls

text \<open>\<open>RouterOSAPI.setOptions\<close> (the fields a connection uses).\<close>

definition setOptions :: "ros_options \<Rightarrow> session_options" where
  "setOptions options =
     \<lparr> api_host = opt_host options,
       api_port = or_default (opt_port options) 8728,
       api_timeout = or_default (opt_timeout options) 10,
       api_tls = opt_tls options \<rparr>"

record connector_options =
  con_host :: string
  con_timeout :: "nat option"
  con_port :: "nat option"
  con_tls :: js_tls

text \<open>
  The constructor of \<open>Connector\<close>. \<open>typeof options.tls === 'object'\<close> holds for an
  object and for \<open>null\<close>.
\<close>

definition Connector_new :: "ros_options \<Rightarrow> connector_options" where
  "Connector_new options =
     (let this = \<lparr> con_host = opt_host options, con_timeout = None, con_port = None,
                    con_tls = TlsUndefined \<rparr>;
          this = (if truthy (opt_timeout options)
                  then this\<lparr>con_timeout := opt_timeout options\<rparr> else this);
          this = (if truthy (opt_port options)
                  then this\<lparr>con_port := opt_port options\<rparr> else this);
          tls = (case opt_tls options of TlsBoolean True \<Rightarrow> TlsObject [] | t \<Rightarrow> t)
      in case tls of
           TlsObject kvs \<Rightarrow>
             (if \<not> truthy (opt_port options) then this\<lparr>con_port := Some 8729\<rparr> else this)
               \<lparr>con_tls := tls\<rparr>
         | TlsNull \<Rightarrow>
             (if \<not> truthy (opt_port options) then this\<lparr>con_port := Some 8729\<rparr> else this)
               \<lparr>con_tls := tls\<rparr>
         | _ \<Rightarrow> this)"

datatype transport = Tcp | Tls

text \<open>
  Where \<open>Connector.connect\<close> opens the socket: \<open>tls.connect(this.port, ...)\<close> when
  \<open>this.tls\<close> is truthy, \<open>socket.connect(this.port, this.host)\<close> otherwise. On both
  paths \<open>socket.setTimeout(this.timeout * 1000)\<close> is called, which throws a range
  error when \<open>this.timeout\<close> was never set (the product is \<open>NaN\<close>): after
  \<open>tls.connect\<close> on the TLS path, before \<open>socket.connect\<close> on the other. The error
  carries the connection that was opened before it, if any.
\<close>

datatype connect_error = ERR_OUT_OF_RANGE "(transport \<times> nat option) option"

definition Connector_connect ::
  "connector_options \<Rightarrow> connect_error + transport \<times> nat option" where
  "Connector_connect this =
     (case con_tls this of
        TlsObject kvs \<Rightarrow>
          (case con_timeout this of
             None \<Rightarrow> Inl (ERR_OUT_OF_RANGE (Some (Tls, con_port this)))
           | Some t \<Rightarrow> Inr (Tls, con_port this))
      | _ \<Rightarrow>
          (case con_timeout this of
             None \<Rightarrow> Inl (ERR_OUT_OF_RANGE None)
           | Some t \<Rightarrow> Inr (Tcp, con_port this)))"

text \<open>
  \<open>RouterOSAPI.connect\<close> builds its Connector from the fields \<open>setOptions\<close> stored and
  connects it.
\<close>

definition RouterOSAPI_connect :: "ros_options \<Rightarrow> connect_error + transport \<times> nat option" where
  "RouterOSAPI_connect options =
     (let this = setOptions options;
          connector = Connector_new
             \<lparr> opt_host = api_host this, opt_port = Some (api_port this),
               opt_timeout = Some (api_timeout this), opt_tls = api_tls this \<rparr>
      in Connector_connect connector)"

lemma or_default_truthy: "d \<noteq> 0 \<Longrightarrow> truthy (Some (or_default v d))"
  by (simp add: or_default_def truthy_def split: option.splits)

lemma session_port_without_option:
  "opt_port options = None \<Longrightarrow> \<exists>t. RouterOSAPI_connect options = Inr (t, Some 8728)"
proof -
  assume p: "opt_port options = None"
  have t: "truthy (Some (or_default (opt_timeout options) 10))"
    by (rule or_default_truthy) simp
  have q: "truthy (Some (or_default None 8728))"
    by (rule or_default_truthy) simp
  show ?thesis
    using p by (cases "opt_tls options")
      (simp_all add: RouterOSAPI_connect_def setOptions_def Connector_new_def
        Connector_connect_def t q Let_def split: bool.splits, simp_all add: or_default_def)
qed

lemma connector_alone_tls_port:
  "Connector_connect (Connector_new \<lparr> opt_host = h, opt_port = None, opt_timeout = Some 10,
       opt_tls = TlsBoolean True \<rparr>) = Inr (Tls, Some 8729)"
  by (simp add: Connector_new_def Connector_connect_def truthy_def Let_def)

lemma connector_alone_without_timeout:
  "Connector_connect (Connector_new \<lparr> opt_host = h, opt_port = None, opt_timeout = None,
       opt_tls = TlsBoolean True \<rparr>) = Inl (ERR_OUT_OF_RANGE (Some (Tls, Some 8729))) \<and>
   Connector_connect (Connector_new \<lparr> opt_host = h, opt_port = None, opt_timeout = None,
       opt_tls = TlsUndefined \<rparr>) = Inl (ERR_OUT_OF_RANGE None)"
  by (simp add: Connector_new_def Connector_connect_def truthy_def Let_def)

text \<open>
  Claim C8 says that a Session without a port option opens a TLS connection to a
  default TLS port (8729) that differs from the plain default (8728). The Connector
  on its own does so (\<open>connector_alone_tls_port\<close>), but a Session hands its Connector
  the port \<open>setOptions\<close> has already defaulted to 8728, so the Connector's own default
  is never taken: with \<open>tls: true\<close> and no port, the Session connects with TLS to 8728.
\<close>

theorem tls_session_default_port:
  "RouterOSAPI_connect \<lparr> opt_host = ''192.168.56.1'', opt_port = None, opt_timeout = None,
       opt_tls = TlsBoolean True \<rparr> = Inr (Tls, Some 8728)"
  by (simp add: RouterOSAPI_connect_def setOptions_def Connector_new_def Connector_connect_def
      or_default_def truthy_def Let_def)

section \<open>Channel: parsing reply sentences\<close>

text \<open>
  A sentence is the list of its words, a word a string. The record \<open>parsePacket\<close>
  builds is a plain object, read here by its own properties. Assigning a string to
  the property \<open>__proto__\<close> of a plain object changes nothing (the inherited setter
  ignores a value that is neither an object nor \<open>null\<close>), every other key becomes an
  own property.
\<close>

type_synonym js_object = "string \<rightharpoonup> string"

text \<open>\<open>line.split('=')\<close>, \<open>linePair.join('=')\<close> and \<open>Array.prototype.shift\<close>.\<close>

fun js_split :: "char \<Rightarrow> string \<Rightarrow> string list" where
  "js_split sep [] = [[]]"
| "js_split sep (c # cs) =
     (if c = sep then [] # js_split sep cs
      else (case js_split sep cs of
              [] \<Rightarrow> [[c]]
            | w # ws \<Rightarrow> (c # w) # ws))"

fun js_join :: "char \<Rightarrow> string list \<Rightarrow> string" where
  "js_join sep [] = []"
| "js_join sep [x] = x"
| "js_join sep (x # y # zs) = x @ sep # js_join sep (y # zs)"

definition shift :: "'a list \<Rightarrow> 'a option \<times> 'a list" where
  "shift xs = (case xs of [] \<Rightarrow> (None, []) | x # rest \<Rightarrow> (Some x, rest))"

text \<open>A property key that is \<open>undefined\<close> is the string \<open>undefined\<close>.\<close>

definition property_key :: "string option \<Rightarrow> string" where
  "property_key k = (case k of None \<Rightarrow> ''undefined'' | Some s \<Rightarrow> s)"

definition obj_set :: "js_object \<Rightarrow> string \<Rightarrow> string \<Rightarrow> js_object" where
  "obj_set obj k v = (if k = ''__proto__'' then obj else obj(k \<mapsto> v))"

text \<open>The body of the loop of \<open>parsePacket\<close>, and the loop.\<close>

definition parseLine :: "js_object \<Rightarrow> string \<Rightarrow> js_object" where
  "parseLine obj line =
     (let linePair = js_split (CHR ''='') line;
          linePair = snd (shift linePair);
          (key, linePair) = shift linePair
      in obj_set obj (property_key key) (js_join (CHR ''='') linePair))"

definition parsePacket :: "string list \<Rightarrow> js_object" where
  "parsePacket packet = foldl parseLine Map.empty packet"


lemma split_ne: "js_split sep w \<noteq> []"
  by (induction w) (auto split: list.splits)

lemma split_app: "sep \<notin> set p \<Longrightarrow> js_split sep (p @ sep # r) = p # js_split sep r"
  by (induction p) (auto split: list.splits simp: split_ne)

lemma join_split: "js_join sep (js_split sep w) = w"
proof (induction w)
  case Nil
  then show ?case by simp
next
  case (Cons c cs)
  show ?case
  proof (cases "c = sep")
    case True
    then show ?thesis using Cons split_ne [of sep cs]
      by (cases "js_split sep cs") auto
  next
    case False
    then show ?thesis using Cons split_ne [of sep cs]
      apply (cases "js_split sep cs")
       apply simp
      subgoal for w ws
        by (cases ws) auto
      done
  qed
qed

lemma parseLine_attr:
  assumes "CHR ''='' \<notin> set p" "CHR ''='' \<notin> set key"
  shows "parseLine obj (p @ ''='' @ key @ ''='' @ val) = obj_set obj key val"
  using assms
  by (simp add: parseLine_def split_app shift_def property_key_def join_split)


section \<open>Channel: replies and the deferred result\<close>

text \<open>
  A Channel with the listeners that its constructor and \<open>Channel.write\<close> register:
  the listener on \<open>data\<close> that pushes into \<open>this.data\<close> (\<open>ch_on_data\<close> counts them),
  the once-listeners on \<open>done\<close> and \<open>trap\<close> that resolve and reject the promise
  \<open>write\<close> returns, and the constructor's once-listener on \<open>unknown\<close>, which throws.
  \<open>ch_settled\<close> records every call of the promise's \<open>resolve\<close> and \<open>reject\<close>, in
  order; \<open>ch_reading\<close> says that the Channel's reader is registered with the
  connector under its tag. \<open>write\<close> is modelled for a Channel that has no promise
  yet, which is how the Session and the Stream use it.
\<close>

datatype settle = Resolve "js_object list" | Reject string

datatype ros_exception = UNKNOWNREPLY "string option"

record channel =
  ch_id :: string
  ch_data :: "js_object list"
  ch_trapped :: bool
  ch_streaming :: bool
  ch_on_data :: nat
  ch_once_done :: bool
  ch_once_trap :: bool
  ch_once_unknown :: bool
  ch_reading :: bool
  ch_settled :: "settle list"

definition Channel_new :: "string \<Rightarrow> channel" where
  "Channel_new tag =
     \<lparr> ch_id = tag, ch_data = [], ch_trapped = False, ch_streaming = False, ch_on_data = 0,
       ch_once_done = False, ch_once_trap = False, ch_once_unknown = True,
       ch_reading = False, ch_settled = [] \<rparr>"

definition Channel_write :: "string list \<Rightarrow> bool \<Rightarrow> bool \<Rightarrow> channel \<Rightarrow> channel \<times> string list" where
  "Channel_write params isStream returnPromise this =
     (let this = this\<lparr>ch_streaming := isStream\<rparr>;
          params = params @ [''.tag='' @ ch_id this];
          this = (if returnPromise
                  then this\<lparr>ch_on_data := Suc (ch_on_data this), ch_once_done := True,
                            ch_once_trap := True\<rparr>
                  else this)
      in (this\<lparr>ch_reading := True\<rparr>, params))"

definition removeAllListeners :: "channel \<Rightarrow> channel" where
  "removeAllListeners this =
     this\<lparr>ch_on_data := 0, ch_once_done := False, ch_once_trap := False,
          ch_once_unknown := False\<rparr>"

definition Channel_close :: "bool \<Rightarrow> channel \<Rightarrow> channel" where
  "Channel_close force this =
     (let this = (if \<not> ch_streaming this \<or> force then removeAllListeners this else this)
      in this\<lparr>ch_reading := False\<rparr>)"

text \<open>
  \<open>new Error(data.message)\<close>: the message is the record's \<open>message\<close> field, and the
  empty string when the record has none.
\<close>

definition Error_message :: "js_object \<Rightarrow> string" where
  "Error_message data = (case data ''message'' of None \<Rightarrow> [] | Some m \<Rightarrow> m)"

definition emit_trap :: "js_object \<Rightarrow> channel \<Rightarrow> channel" where
  "emit_trap parsed this =
     (if ch_once_trap this
      then this\<lparr>ch_once_trap := False,
                ch_settled := ch_settled this @ [Reject (Error_message parsed)]\<rparr>
      else this)"

definition emit_done :: "channel \<Rightarrow> channel" where
  "emit_done this =
     (if ch_once_done this
      then this\<lparr>ch_once_done := False,
                ch_settled := ch_settled this @ [Resolve (ch_data this)]\<rparr>
      else this)"

definition emit_data :: "js_object \<Rightarrow> channel \<Rightarrow> channel" where
  "emit_data parsed this = this\<lparr>ch_data := ch_data this @ replicate (ch_on_data this) parsed\<rparr>"

text \<open>
  \<open>processPacket\<close>. An exception (the \<open>unknown\<close> listener's) leaves the function at
  once, with the state as it is then. An \<open>!re\<close> of a streaming Channel is emitted as
  \<open>stream\<close>, to listeners that only a Stream registers.
\<close>

definition processPacket :: "string list \<Rightarrow> channel \<Rightarrow> ros_exception option \<times> channel" where
  "processPacket packet0 this =
     (let (reply, packet) = shift packet0;
          parsed = parsePacket packet
      in if reply = Some ''!trap'' then (None, emit_trap parsed (this\<lparr>ch_trapped := True\<rparr>))
         else
           (let this = (if packet \<noteq> [] \<and> \<not> ch_streaming this then emit_data parsed this
                        else this)
            in if reply = Some ''!re'' then (None, this)
               else if reply = Some ''!done'' then
                 (None, Channel_close False (if \<not> ch_trapped this then emit_done this else this))
               else if ch_once_unknown this then
                 (Some (UNKNOWNREPLY reply), this\<lparr>ch_once_unknown := False\<rparr>)
               else (None, Channel_close False this)))"

















subsection \<open>Attribute words\<close>

text \<open>The key under which \<open>parsePacket\<close> stores a word.\<close>

definition line_key :: "string \<Rightarrow> string" where
  "line_key line = property_key (fst (shift (snd (shift (js_split (CHR ''='') line)))))"

lemma parseLine_other: "line_key w \<noteq> k \<Longrightarrow> parseLine obj w k = obj k"
  by (auto simp: parseLine_def line_key_def obj_set_def Let_def split: prod.splits)

lemma foldl_parseLine_keep:
  "\<forall>w \<in> set post. line_key w \<noteq> k \<Longrightarrow> foldl parseLine obj post k = obj k"
  by (induction post arbitrary: obj) (auto simp: parseLine_other)

lemma parseLine_key: "parseLine obj w k \<noteq> obj k \<Longrightarrow> k = line_key w"
  using parseLine_other [of w k obj] by auto

lemma foldl_parseLine_dom:
  "foldl parseLine obj ws k \<noteq> obj k \<Longrightarrow> k \<in> line_key ` set ws"
proof (induction ws arbitrary: obj)
  case Nil
  then show ?case by simp
next
  case (Cons w ws)
  show ?case
  proof (cases "foldl parseLine (parseLine obj w) ws k = parseLine obj w k")
    case True
    with Cons.prems have "parseLine obj w k \<noteq> obj k" by simp
    then show ?thesis using parseLine_key by fastforce
  next
    case False
    then show ?thesis using Cons.IH [of "parseLine obj w"] by auto
  qed
qed

lemma parsePacket_dom: "parsePacket ws k = Some v \<Longrightarrow> k \<in> line_key ` set ws"
  using foldl_parseLine_dom [of Map.empty ws k] by (simp add: parsePacket_def)

lemma processPacket_data:
  "\<not> ch_streaming c \<Longrightarrow> reply \<noteq> ''!trap'' \<Longrightarrow> ws \<noteq> [] \<Longrightarrow>
   ch_data (snd (processPacket (reply # ws) c))
     = ch_data c @ replicate (ch_on_data c) (parsePacket ws)"
  by (simp add: processPacket_def shift_def emit_data_def emit_done_def Channel_close_def
      removeAllListeners_def Let_def)

lemma processPacket_trap:
  "ch_once_trap c \<Longrightarrow>
   ch_settled (snd (processPacket (''!trap'' # ws) c))
     = ch_settled c @ [Reject (Error_message (parsePacket ws))]"
  by (simp add: processPacket_def shift_def emit_trap_def Let_def)

text \<open>
  Claim C4, as amended. A word is split at every \<open>=\<close>. The text before the first
  \<open>=\<close> is dropped (it is empty in an attribute word \<open>=key=value\<close>), the text between
  the first and the second \<open>=\<close> is the key, and everything after the second \<open>=\<close>,
  further \<open>=\<close> included, is the value. The record maps the key to the value when
  the key is not \<open>__proto__\<close> and no later word of the sentence has the same key.
  \<open>processPacket\<close> takes the reply word off the sentence before it parses it: the
  record that a Channel which is not streaming pushes to its data, for a reply other
  than \<open>!trap\<close>, is the record of the words after the reply word, and the message a
  \<open>!trap\<close> rejects with is the value of their \<open>message\<close> word. Every field of the
  record has the key of one of the words after the reply word, so the reply word
  gives no field.
\<close>

theorem parsePacket_attribute_words:
  assumes "CHR ''='' \<notin> set p" and "CHR ''='' \<notin> set key" and "key \<noteq> ''__proto__''"
    and "\<forall>w \<in> set post. line_key w \<noteq> key"
  shows "parsePacket (pre @ (p @ ''='' @ key @ ''='' @ val) # post) key = Some val \<and>
         (\<not> ch_streaming c \<and> reply \<noteq> ''!trap'' \<longrightarrow>
            ch_data (snd (processPacket (reply # pre @ (p @ ''='' @ key @ ''='' @ val) # post) c))
              = ch_data c @ replicate (ch_on_data c)
                  (parsePacket (pre @ (p @ ''='' @ key @ ''='' @ val) # post))) \<and>
         (ch_once_trap c \<and> key = ''message'' \<longrightarrow>
            ch_settled (snd (processPacket
                (''!trap'' # pre @ (p @ ''='' @ key @ ''='' @ val) # post) c))
              = ch_settled c @ [Reject val]) \<and>
         (\<forall>k v. parsePacket (pre @ (p @ ''='' @ key @ ''='' @ val) # post) k = Some v
            \<longrightarrow> k \<in> line_key ` set (pre @ (p @ ''='' @ key @ ''='' @ val) # post))"
proof -
  let ?ws = "pre @ (p @ ''='' @ key @ ''='' @ val) # post"
  have "parseLine (foldl parseLine Map.empty pre) (p @ ''='' @ key @ ''='' @ val) key = Some val"
    using assms(3) parseLine_attr [OF assms(1,2), of "foldl parseLine Map.empty pre" val]
    by (simp add: obj_set_def)
  then have 1: "parsePacket ?ws key = Some val"
    using foldl_parseLine_keep [OF assms(4)] by (simp add: parsePacket_def)
  have 2: "ch_data (snd (processPacket (reply # ?ws) c))
      = ch_data c @ replicate (ch_on_data c) (parsePacket ?ws)"
    if "\<not> ch_streaming c" "reply \<noteq> ''!trap''"
    using processPacket_data [OF that, of ?ws] by simp
  have 3: "ch_settled (snd (processPacket (''!trap'' # ?ws) c)) = ch_settled c @ [Reject val]"
    if "ch_once_trap c" "key = ''message''"
    using processPacket_trap [OF that(1), of ?ws] 1 that(2) by (simp add: Error_message_def)
  have 4: "k \<in> line_key ` set ?ws" if "parsePacket ?ws k = Some v" for k v
    using parsePacket_dom [OF that] .
  from 1 2 3 4 show ?thesis by blast
qed

text \<open>
  A sentence of three attribute words, as a reply \<open>!re\<close> and as a \<open>!trap\<close>, on a Channel
  that collects its rows.
\<close>

theorem parsePacket_attribute_words_witness:
  "parsePacket [''=category=0'', ''=message=a=b'', ''=mtu=1500''] ''message'' = Some ''a=b'' \<and>
   ch_data (snd (processPacket [''!re'', ''=category=0'', ''=message=a=b'', ''=mtu=1500'']
        (fst (Channel_write [''/interface/print''] False True (Channel_new ''k3j9x'')))))
     = [[''category'' \<mapsto> ''0'', ''message'' \<mapsto> ''a=b'', ''mtu'' \<mapsto> ''1500'']] \<and>
   ch_settled (snd (processPacket [''!trap'', ''=category=0'', ''=message=a=b'', ''=mtu=1500'']
        (fst (Channel_write [''/interface/print''] False True (Channel_new ''k3j9x'')))))
     = [Reject ''a=b''] \<and>
   dom (parsePacket [''=category=0'', ''=message=a=b'', ''=mtu=1500''])
     \<subseteq> {''category'', ''message'', ''mtu''}"
proof -
  let ?c = "fst (Channel_write [''/interface/print''] False True (Channel_new ''k3j9x''))"
  let ?ws = "[''=category=0'', ''=message=a=b'', ''=mtu=1500'']"
  have c: "\<not> ch_streaming ?c" "ch_once_trap ?c" "ch_on_data ?c = 1" "ch_data ?c = []"
    "ch_settled ?c = []"
    by (simp_all add: Channel_write_def Channel_new_def Let_def)
  have r: "parsePacket ?ws = [''category'' \<mapsto> ''0'', ''message'' \<mapsto> ''a=b'', ''mtu'' \<mapsto> ''1500'']"
    by (simp add: parsePacket_def parseLine_def shift_def property_key_def obj_set_def)
  have k: "line_key ` set ?ws = {''category'', ''message'', ''mtu''}"
    by (simp add: line_key_def shift_def property_key_def)
  note t = parsePacket_attribute_words [of "''''" "''message''" "[''=mtu=1500'']"
      "[''=category=0'']" "''a=b''" ?c "''!re''"]
  have h: "\<forall>w \<in> set [''=mtu=1500'']. line_key w \<noteq> ''message''"
    by (simp add: line_key_def shift_def property_key_def)
  from t h c r k show ?thesis by (auto simp: dom_def)
qed

text \<open>
  Claim C4 as stated (the text before the first \<open>=\<close> is the key, all after it the
  value) fails: the word \<open>a=b\<close> gives the key \<open>b\<close> and an empty value, and the
  attribute word \<open>=name=admin\<close> gives the key \<open>name\<close>, not the empty key.
\<close>

theorem parsePacket_first_equals_counterexample:
  "\<not> (parsePacket [''a=b''] ''a'' = Some ''b'') \<and>
   parsePacket [''a=b''] ''b'' = Some '''' \<and>
   \<not> (parsePacket [''=name=admin''] '''' = Some ''name=admin'') \<and>
   parsePacket [''=name=admin''] ''name'' = Some ''admin''"
  by (simp add: parsePacket_def parseLine_def shift_def property_key_def obj_set_def)

section \<open>Transmitter: the pool of pending words\<close>

text \<open>
  The Transmitter and its socket: the pool, the socket's \<open>writable\<close> flag (which the
  runtime sets) and the chunks handed to \<open>socket.write\<close>, in the order of the calls.
\<close>

record transmitter =
  tx_pool :: "buffer list"
  sock_writable :: bool
  sock_written :: "buffer list"

definition Transmitter_new :: "bool \<Rightarrow> transmitter" where
  "Transmitter_new writable = \<lparr> tx_pool = [], sock_writable = writable, sock_written = [] \<rparr>"

definition socket_write :: "buffer \<Rightarrow> transmitter \<Rightarrow> transmitter" where
  "socket_write data this = this\<lparr>sock_written := sock_written this @ [data]\<rparr>"

text \<open>\<open>Transmitter.write\<close>; an exception of \<open>encodeString\<close> would leave it (\<open>None\<close>).\<close>

definition Transmitter_write ::
  "('s \<Rightarrow> buffer) \<Rightarrow> 's option \<Rightarrow> transmitter \<Rightarrow> transmitter option" where
  "Transmitter_write iconv_encode data this =
     (case encodeString iconv_encode data of
        None \<Rightarrow> None
      | Some encodedData \<Rightarrow>
          Some (if \<not> sock_writable this \<or> length (tx_pool this) > 0
                then this\<lparr>tx_pool := tx_pool this @ [encodedData]\<rparr>
                else socket_write encodedData this))"

text \<open>\<open>Transmitter.runPool\<close>: the loop takes the first chunk of the pool and writes it.\<close>

function runPool :: "transmitter \<Rightarrow> transmitter" where
  "runPool this =
     (if length (tx_pool this) > 0
      then runPool (socket_write (hd (tx_pool this)) (this\<lparr>tx_pool := tl (tx_pool this)\<rparr>))
      else this)"
  by pat_completeness auto
termination
  by (relation "measure (\<lambda>this. length (tx_pool this))") (auto simp: socket_write_def)

text \<open>
  What happens to a Transmitter: a call of \<open>write\<close>, the runtime changing the
  socket's \<open>writable\<close> flag, and \<open>Connector.onConnect\<close>, which runs the pool.
\<close>

datatype 's tx_event = TxWrite "'s option" | SocketWritable bool | OnConnect

definition tx_step :: "('s \<Rightarrow> buffer) \<Rightarrow> 's tx_event \<Rightarrow> transmitter \<Rightarrow> transmitter option" where
  "tx_step iconv_encode ev this =
     (case ev of
        TxWrite data \<Rightarrow> Transmitter_write iconv_encode data this
      | SocketWritable b \<Rightarrow> Some (this\<lparr>sock_writable := b\<rparr>)
      | OnConnect \<Rightarrow> Some (runPool this))"

fun tx_run :: "('s \<Rightarrow> buffer) \<Rightarrow> 's tx_event list \<Rightarrow> transmitter \<Rightarrow> transmitter option" where
  "tx_run iconv_encode [] this = Some this"
| "tx_run iconv_encode (ev # evs) this =
     (case tx_step iconv_encode ev this of
        None \<Rightarrow> None
      | Some this' \<Rightarrow> tx_run iconv_encode evs this')"

fun written_words :: "'s tx_event list \<Rightarrow> 's option list" where
  "written_words [] = []"
| "written_words (TxWrite data # evs) = data # written_words evs"
| "written_words (ev # evs) = written_words evs"

declare runPool.simps [simp del]

lemma runPool_flush:
  "runPool this = this\<lparr>tx_pool := [], sock_written := sock_written this @ tx_pool this\<rparr>"
proof (induction this rule: runPool.induct)
  case (1 this)
  show ?case
  proof (cases "tx_pool this")
    case Nil
    then show ?thesis by (subst runPool.simps) simp
  next
    case (Cons d rest)
    then show ?thesis
      using 1 by (subst runPool.simps) (simp add: socket_write_def)
  qed
qed

lemma encodeString_total: "\<exists>e. encodeString enc w = Some e"
proof (cases w)
  case None
  then show ?thesis by (simp add: encodeString_def)
next
  case (Some s)
  then show ?thesis
    using encodeString_1 [of enc s] encodeString_2 [of enc s] encodeString_3 [of enc s]
      encodeString_4 [of enc s] encodeString_5 [of enc s]
    by (metis not_le_imp_less)
qed

lemma tx_step_order:
  "\<exists>t'. tx_step enc ev t = Some t' \<and>
     map Some (sock_written t' @ tx_pool t')
       = map Some (sock_written t @ tx_pool t) @ map (encodeString enc) (written_words [ev])"
proof (cases ev)
  case (TxWrite w)
  obtain e where "encodeString enc w = Some e" using encodeString_total by blast
  with TxWrite show ?thesis
    by (auto simp: tx_step_def Transmitter_write_def socket_write_def)
next
  case (SocketWritable b)
  then show ?thesis by (simp add: tx_step_def)
next
  case OnConnect
  then show ?thesis by (simp add: tx_step_def runPool_flush)
qed

lemma written_words_Cons: "written_words (ev # evs) = written_words [ev] @ written_words evs"
  by (cases ev) simp_all

lemma tx_run_order:
  "\<exists>t'. tx_run enc evs t = Some t' \<and>
     map Some (sock_written t' @ tx_pool t')
       = map Some (sock_written t @ tx_pool t) @ map (encodeString enc) (written_words evs)"
proof (induction evs arbitrary: t)
  case Nil
  then show ?case by simp
next
  case (Cons ev evs)
  obtain t1 where s: "tx_step enc ev t = Some t1"
    and o: "map Some (sock_written t1 @ tx_pool t1)
       = map Some (sock_written t @ tx_pool t) @ map (encodeString enc) (written_words [ev])"
    using tx_step_order [of enc ev t] by blast
  obtain t2 where r: "tx_run enc evs t1 = Some t2"
    and o2: "map Some (sock_written t2 @ tx_pool t2)
       = map Some (sock_written t1 @ tx_pool t1) @ map (encodeString enc) (written_words evs)"
    using Cons.IH [of t1] by blast
  from s r have "tx_run enc (ev # evs) t = Some t2" by simp
  moreover from o o2 have "map Some (sock_written t2 @ tx_pool t2)
       = map Some (sock_written t @ tx_pool t) @ map (encodeString enc) (written_words (ev # evs))"
    by (subst written_words_Cons) simp
  ultimately show ?case by blast
qed

lemma tx_run_append:
  "tx_run enc (xs @ ys) t = (case tx_run enc xs t of None \<Rightarrow> None | Some t' \<Rightarrow> tx_run enc ys t')"
  by (induction xs arbitrary: t) (auto split: option.splits)

lemma writes_pooled:
  "\<not> sock_writable t \<Longrightarrow>
   \<exists>encs. map (encodeString enc) ws = map Some encs \<and>
      tx_run enc (map TxWrite ws) t = Some (t\<lparr>tx_pool := tx_pool t @ encs\<rparr>)"
proof (induction ws arbitrary: t)
  case Nil
  then show ?case by simp
next
  case (Cons w ws)
  obtain e where e: "encodeString enc w = Some e" using encodeString_total by blast
  let ?t1 = "t\<lparr>tx_pool := tx_pool t @ [e]\<rparr>"
  from Cons.prems e have s: "tx_step enc (TxWrite w) t = Some ?t1"
    by (simp add: tx_step_def Transmitter_write_def)
  from Cons.prems have "\<not> sock_writable ?t1" by simp
  from Cons.IH [OF this] obtain encs where
    m: "map (encodeString enc) ws = map Some encs" and
    r: "tx_run enc (map TxWrite ws) ?t1 = Some (?t1\<lparr>tx_pool := tx_pool ?t1 @ encs\<rparr>)"
    by blast
  from e m have "map (encodeString enc) (w # ws) = map Some (e # encs)" by simp
  moreover from s r have
    "tx_run enc (map TxWrite (w # ws)) t = Some (t\<lparr>tx_pool := tx_pool t @ (e # encs)\<rparr>)"
    by simp
  ultimately show ?case by blast
qed

text \<open>
  Claim C5. Words written while the socket is not writable are all appended to the
  pool, encoded, in the order of the calls, and nothing reaches the socket; when the
  socket has become writable and \<open>onConnect\<close> runs the pool, the socket has
  received exactly those chunks in that order and the pool is empty. A word written
  while the pool is not empty is pooled behind the others, whatever the socket's
  state. And for every sequence of writes, changes of the flag and pool runs, the
  chunks on the socket followed by those in the pool are the encodings of the words
  in the order of the \<open>write\<close> calls.
\<close>

theorem pool_flushed_in_write_order:
  "(\<exists>encs. map (encodeString enc) ws = map Some encs \<and>
      tx_run enc (map TxWrite ws) (Transmitter_new False)
        = Some \<lparr> tx_pool = encs, sock_writable = False, sock_written = [] \<rparr> \<and>
      tx_run enc (map TxWrite ws @ [SocketWritable True, OnConnect]) (Transmitter_new False)
        = Some \<lparr> tx_pool = [], sock_writable = True, sock_written = encs \<rparr>) \<and>
   (\<forall>t w. tx_pool t \<noteq> [] \<longrightarrow>
      (\<exists>e. encodeString enc w = Some e \<and>
           Transmitter_write enc w t = Some (t\<lparr>tx_pool := tx_pool t @ [e]\<rparr>))) \<and>
   (\<forall>evs b. \<exists>t. tx_run enc evs (Transmitter_new b) = Some t \<and>
      map Some (sock_written t @ tx_pool t) = map (encodeString enc) (written_words evs))"
proof (intro conjI allI impI)
  have "\<not> sock_writable (Transmitter_new False)" by (simp add: Transmitter_new_def)
  from writes_pooled [OF this, of enc ws] obtain encs where
    m: "map (encodeString enc) ws = map Some encs" and
    r: "tx_run enc (map TxWrite ws) (Transmitter_new False)
          = Some \<lparr> tx_pool = encs, sock_writable = False, sock_written = [] \<rparr>"
    by (auto simp: Transmitter_new_def)
  from r have "tx_run enc (map TxWrite ws @ [SocketWritable True, OnConnect]) (Transmitter_new False)
        = Some \<lparr> tx_pool = [], sock_writable = True, sock_written = encs \<rparr>"
    by (simp add: tx_run_append tx_step_def runPool_flush)
  with m r show "\<exists>encs. map (encodeString enc) ws = map Some encs \<and>
      tx_run enc (map TxWrite ws) (Transmitter_new False)
        = Some \<lparr> tx_pool = encs, sock_writable = False, sock_written = [] \<rparr> \<and>
      tx_run enc (map TxWrite ws @ [SocketWritable True, OnConnect]) (Transmitter_new False)
        = Some \<lparr> tx_pool = [], sock_writable = True, sock_written = encs \<rparr>"
    by blast
next
  fix t :: transmitter and w :: "'a option"
  assume "tx_pool t \<noteq> []"
  moreover obtain e where "encodeString enc w = Some e" using encodeString_total by blast
  ultimately show "\<exists>e. encodeString enc w = Some e \<and>
           Transmitter_write enc w t = Some (t\<lparr>tx_pool := tx_pool t @ [e]\<rparr>)"
    by (simp add: Transmitter_write_def)
next
  fix evs :: "'a tx_event list" and b
  show "\<exists>t. tx_run enc evs (Transmitter_new b) = Some t \<and>
      map Some (sock_written t @ tx_pool t) = map (encodeString enc) (written_words evs)"
    using tx_run_order [of enc evs "Transmitter_new b"] by (simp add: Transmitter_new_def)
qed

text \<open>
  The theorem at the words \<open>/login\<close> and the terminator of a sentence, with an encoder
  for ASCII text.
\<close>

definition ascii :: "string \<Rightarrow> buffer" where
  "ascii s = map (\<lambda>c. of_char c) s"

theorem pool_flushed_in_write_order_witness:
  "tx_run ascii [TxWrite (Some ''/login''), TxWrite None] (Transmitter_new False)
     = Some \<lparr> tx_pool = [[6, 0x2f, 0x6c, 0x6f, 0x67, 0x69, 0x6e], [0]], sock_writable = False,
              sock_written = [] \<rparr> \<and>
   tx_run ascii [TxWrite (Some ''/login''), TxWrite None, SocketWritable True, OnConnect]
       (Transmitter_new False)
     = Some \<lparr> tx_pool = [], sock_writable = True,
              sock_written = [[6, 0x2f, 0x6c, 0x6f, 0x67, 0x69, 0x6e], [0]] \<rparr>"
proof -
  from pool_flushed_in_write_order [of ascii "[Some ''/login'', None]"]
  obtain encs where
    m: "map (encodeString ascii) [Some ''/login'', None] = map Some encs" and
    r: "tx_run ascii (map TxWrite [Some ''/login'', None]) (Transmitter_new False)
        = Some \<lparr> tx_pool = encs, sock_writable = False, sock_written = [] \<rparr>" and
    f: "tx_run ascii (map TxWrite [Some ''/login'', None] @ [SocketWritable True, OnConnect])
          (Transmitter_new False)
        = Some \<lparr> tx_pool = [], sock_writable = True, sock_written = encs \<rparr>"
    by blast
  have "encodeString ascii (Some ''/login'') = Some [6, 0x2f, 0x6c, 0x6f, 0x67, 0x69, 0x6e]"
    by (simp add: encodeString_def ascii_def Let_def enc_simps)
  moreover have "encodeString ascii None = Some [0]"
    by (simp add: encodeString_def)
  ultimately have "encs = [[6, 0x2f, 0x6c, 0x6f, 0x67, 0x69, 0x6e], [0]]"
    using m by (cases encs) auto
  with r f show ?thesis by simp
qed

section \<open>Stream: \<open>RStream\<close>\<close>

text \<open>
  A Stream together with what it reaches of its Channel. The packet handed to
  \<open>onStream\<close> is a parsed record, or the empty array of a synthesized event.
  What the Stream emits (to listeners of its own events), the calls of its callback
  and the sentences it writes are recorded in \<open>st_log\<close>, in order. The listeners that
  \<open>start\<close> registers on the Channel are counted (\<open>st_ch_close\<close>, \<open>st_ch_stream\<close>,
  \<open>st_ch_trap\<close>, \<open>st_ch_done\<close>), since every \<open>start\<close> adds one of each. Pending timers
  are pairs of a deadline in milliseconds and what fires; \<open>st_now\<close> is the runtime's
  clock. \<open>st_debounce\<close> holds the timeout of the current debounce object
  (\<open>debounceSendingEmptyData\<close>), when there is one. \<open>st_cancels\<close> are the promises of
  the \<open>/cancel\<close> commands still unanswered, each with what is chained to it.
  \<open>st_error_listener\<close> says whether somebody listens to the Stream's \<open>error\<close> event:
  without a listener Node's \<open>emit('error', ...)\<close> throws. The callback and the
  listeners are the caller's code and are taken not to call back into the Stream
  while they run.
\<close>

datatype stream_packet = Parsed js_object | EmptyArray

datatype stream_out =
    Emit_data stream_packet
  | Emit_error js_object
  | Emit_trap js_object
  | Emit_started
  | Emit_stopped
  | Emit_done
  | Emit_close
  | Callback_error string
  | Callback_data stream_packet
  | Callback_section "stream_packet list"
  | Channel_written "string list"

datatype promise = Resolved | Rejected string | Pending

datatype continuation = StopThen | StopThenPauseThen

datatype timer_kind = DebounceCurrent | DebounceOrphan | SectionSend

datatype js_number = NaN | Num int

record rstream =
  st_params :: "string list"
  st_callback :: bool
  st_error_listener :: bool
  st_shouldDebounceEmptyData :: bool
  st_streaming :: bool
  st_pausing :: bool
  st_paused :: bool
  st_stopping :: bool
  st_stopped :: bool
  st_trapped :: bool
  st_forcelyStop :: bool
  st_currentSection :: "string option"
  st_currentSectionPacket :: "stream_packet list"
  st_debounce :: "js_number option"
  st_timers :: "(nat \<times> timer_kind) list"
  st_now :: nat
  st_ch_id :: string
  st_ch_streaming :: bool
  st_ch_reading :: bool
  st_ch_close :: nat
  st_ch_stream :: nat
  st_ch_trap :: nat
  st_ch_done :: nat
  st_ch_unknown :: bool
  st_cancels :: "continuation list"
  st_log :: "stream_out list"

definition RStream_new :: "string \<Rightarrow> string list \<Rightarrow> bool \<Rightarrow> nat \<Rightarrow> rstream" where
  "RStream_new tag params callback now =
     \<lparr> st_params = params, st_callback = callback, st_error_listener = False,
       st_shouldDebounceEmptyData = False, st_streaming = True, st_pausing = False,
       st_paused = False, st_stopping = False, st_stopped = False, st_trapped = False,
       st_forcelyStop = False, st_currentSection = None, st_currentSectionPacket = [],
       st_debounce = None, st_timers = [], st_now = now, st_ch_id = tag,
       st_ch_streaming = False, st_ch_reading = False, st_ch_close = 0, st_ch_stream = 0,
       st_ch_trap = 0, st_ch_done = 0, st_ch_unknown = True, st_cancels = [], st_log = [] \<rparr>"

definition out :: "stream_out \<Rightarrow> rstream \<Rightarrow> rstream" where
  "out x this = this\<lparr>st_log := st_log this @ [x]\<rparr>"

text \<open>
  Timers. \<open>setTimeout\<close> runs its callback after at least one millisecond: a delay
  that is not a number between 1 and \<open>2^31 - 1\<close> counts as 1. \<open>utils.debounce\<close>: \<open>run\<close>
  clears the pending timeout of the object and sets a new one, \<open>cancel\<close> clears it.
\<close>

definition clearTimeout :: "timer_kind \<Rightarrow> rstream \<Rightarrow> rstream" where
  "clearTimeout k this = this\<lparr>st_timers := filter (\<lambda>e. snd e \<noteq> k) (st_timers this)\<rparr>"

definition timeout_delay :: "js_number \<Rightarrow> nat" where
  "timeout_delay after =
     (case after of
        NaN \<Rightarrow> 1
      | Num d \<Rightarrow> if 1 \<le> d \<and> d \<le> 2147483647 then nat d else 1)"

definition setTimeout :: "timer_kind \<Rightarrow> js_number \<Rightarrow> rstream \<Rightarrow> rstream" where
  "setTimeout k after this =
     this\<lparr>st_timers := st_timers this @ [(st_now this + timeout_delay after, k)]\<rparr>"

definition debounce_run :: "rstream \<Rightarrow> rstream" where
  "debounce_run this =
     (case st_debounce this of
        None \<Rightarrow> this
      | Some timeout \<Rightarrow> setTimeout DebounceCurrent timeout (clearTimeout DebounceCurrent this))"

definition debounce_cancel :: "rstream \<Rightarrow> rstream" where
  "debounce_cancel this =
     (case st_debounce this of
        None \<Rightarrow> this
      | Some timeout \<Rightarrow> clearTimeout DebounceCurrent this)"

text \<open>\<open>onStream\<close>, with the batching of packets that carry a \<open>.section\<close>.\<close>

definition section_of :: "stream_packet \<Rightarrow> string option" where
  "section_of packet =
     (case packet of
        EmptyArray \<Rightarrow> None
      | Parsed obj \<Rightarrow>
          (case obj ''.section'' of
             None \<Rightarrow> None
           | Some s \<Rightarrow> if s = [] then None else Some s))"

definition sendData :: "rstream \<Rightarrow> rstream" where
  "sendData this =
     (out (Callback_section (st_currentSectionPacket this)) this)\<lparr>st_currentSectionPacket := []\<rparr>"

definition onStream :: "stream_packet \<Rightarrow> rstream \<Rightarrow> rstream" where
  "onStream packet this0 =
     (let this = out (Emit_data packet) this0
      in if st_callback this then
           (case section_of packet of
              Some sec \<Rightarrow>
                (let this = clearTimeout SectionSend this;
                     this = setTimeout SectionSend (Num 300) this;
                     this = (if length (st_currentSectionPacket this) > 0 \<and>
                                Some sec \<noteq> st_currentSection this
                             then sendData (clearTimeout SectionSend this)
                             else this)
                 in this\<lparr>st_currentSection := Some sec,
                         st_currentSectionPacket := st_currentSectionPacket this @ [packet]\<rparr>)
            | None \<Rightarrow> out (Callback_data packet) this)
         else this)"

text \<open>The callback that \<open>prepareDebounceEmptyData\<close> gives to \<open>debounce\<close>.\<close>

definition debounce_callback :: "rstream \<Rightarrow> rstream" where
  "debounce_callback this =
     (if \<not> st_stopped this \<or> \<not> st_stopping this \<or> \<not> st_paused this \<or> \<not> st_pausing this
      then debounce_run (onStream EmptyArray this)
      else this)"

text \<open>
  \<open>/=interval=/.test(param)\<close> is a substring test. \<open>parseInt(val, null)\<close> skips
  leading white space, reads a sign, takes \<open>0x\<close> for base 16 and otherwise base 10,
  and reads the longest run of digits, \<open>NaN\<close> when there is none. Numbers are exact
  integers here (JavaScript's are doubles, exact up to \<open>2^53\<close>). The characters of a
  parameter are code units up to \<open>U+00FF\<close>; the white space \<open>parseInt\<close> skips is, among
  them, \<open>U+0009\<close> to \<open>U+000D\<close>, the space and the no-break space \<open>U+00A0\<close> (the other
  white space characters of JavaScript lie above \<open>U+00FF\<close>).
\<close>

fun contains :: "string \<Rightarrow> string \<Rightarrow> bool" where
  "contains sub [] = (sub = [])"
| "contains sub (c # cs) = (take (length sub) (c # cs) = sub \<or> contains sub cs)"

definition is_space :: "char \<Rightarrow> bool" where
  "is_space c =
     (c \<in> set [CHR 0x09, CHR 0x0A, CHR 0x0B, CHR 0x0C, CHR 0x0D, CHR '' '', CHR 0xA0])"

definition digit_value :: "char \<Rightarrow> nat" where
  "digit_value c =
     (let n = of_char c :: nat
      in if 48 \<le> n \<and> n \<le> 57 then n - 48
         else if 97 \<le> n \<and> n \<le> 122 then n - 87
         else if 65 \<le> n \<and> n \<le> 90 then n - 55
         else 36)"

definition parseInt :: "string \<Rightarrow> js_number" where
  "parseInt str =
     (let s = dropWhile is_space str;
          neg = (s \<noteq> [] \<and> hd s = CHR ''-'');
          s = (if s \<noteq> [] \<and> (hd s = CHR ''+'' \<or> hd s = CHR ''-'') then tl s else s);
          hex = (take 2 s = ''0x'' \<or> take 2 s = ''0X'');
          radix = (if hex then 16 else 10);
          s = (if hex then drop 2 s else s);
          z = takeWhile (\<lambda>c. digit_value c < radix) s
      in if z = [] then NaN
         else (let v = int (foldl (\<lambda>a c. a * radix + digit_value c) 0 z)
               in Num (if neg then - v else v)))"

definition times1000 :: "js_number \<Rightarrow> js_number" where
  "times1000 x = (case x of NaN \<Rightarrow> NaN | Num n \<Rightarrow> Num (n * 1000))"

definition plus300 :: "js_number \<Rightarrow> js_number" where
  "plus300 x = (case x of NaN \<Rightarrow> NaN | Num n \<Rightarrow> Num (n + 300))"

definition prepareDebounceEmptyData :: "rstream \<Rightarrow> rstream" where
  "prepareDebounceEmptyData this0 =
     (let this = this0\<lparr>st_shouldDebounceEmptyData := True\<rparr>;
          interval =
            (case find (contains ''=interval='') (st_params this) of
               None \<Rightarrow> Num 2000
             | Some intervalParam \<Rightarrow>
                 (let parts = js_split (CHR ''='') intervalParam
                  in if 2 < length parts then times1000 (parseInt (parts ! 2)) else NaN))
      in this\<lparr>st_debounce := Some (plus300 interval),
              st_timers := map (\<lambda>(t, k). (t, if k = DebounceCurrent then DebounceOrphan else k))
                             (st_timers this)\<rparr>)"

text \<open>\<open>start\<close>: register the listeners on the Channel, write the command, emit \<open>started\<close>.\<close>

definition start :: "rstream \<Rightarrow> rstream" where
  "start this =
     (if \<not> st_stopped this \<and> \<not> st_stopping this then
        (let this = this\<lparr>st_ch_close := Suc (st_ch_close this),
                          st_ch_stream := Suc (st_ch_stream this),
                          st_ch_trap := Suc (st_ch_trap this),
                          st_ch_done := Suc (st_ch_done this)\<rparr>;
             this = out (Channel_written (st_params this))
                      (this\<lparr>st_ch_streaming := True, st_ch_reading := True\<rparr>);
             this = out Emit_started this
         in if st_shouldDebounceEmptyData this then prepareDebounceEmptyData this else this)
      else this)"

text \<open>
  The listener on the Channel's \<open>close\<close> event that \<open>start\<close> registers, and
  \<open>Channel.close(force)\<close> as the Stream sees it: the listeners run, then all
  listeners are removed when the close is forced, and the reader is unregistered.
\<close>

definition close_listener :: "rstream \<Rightarrow> rstream" where
  "close_listener this0 =
     (let this = (if st_forcelyStop this0 \<or> (\<not> st_pausing this0 \<and> \<not> st_paused this0)
                  then out Emit_close (if \<not> st_trapped this0 then out Emit_done this0 else this0)
                  else this0)
      in this\<lparr>st_stopped := False\<rparr>)"

definition channel_close :: "bool \<Rightarrow> rstream \<Rightarrow> rstream" where
  "channel_close force this0 =
     (let this = (close_listener ^^ st_ch_close this0) this0;
          this = (if \<not> st_ch_streaming this \<or> force
                  then this\<lparr>st_ch_close := 0, st_ch_stream := 0, st_ch_trap := 0,
                            st_ch_done := 0, st_ch_unknown := False\<rparr>
                  else this)
      in this\<lparr>st_ch_reading := False\<rparr>)"

text \<open>
  \<open>stop(pausing)\<close>. The promise it returns is resolved at once, or pending on the
  answer to \<open>/cancel\<close>; \<open>stop_then\<close> and \<open>pause_then\<close> are the functions chained to
  that promise by \<open>stop\<close> and by \<open>pause\<close>, and \<open>cancel_done\<close> runs them when the
  \<open>/cancel\<close> command completes.
\<close>

definition stop :: "bool \<Rightarrow> rstream \<Rightarrow> promise \<times> rstream" where
  "stop pausing this0 =
     (if st_stopped this0 \<or> st_stopping this0 then (Resolved, this0)
      else
        (let this = (if \<not> pausing then this0\<lparr>st_forcelyStop := True\<rparr> else this0)
         in if st_paused this then
              (Resolved, channel_close True
                 (this\<lparr>st_streaming := False, st_stopping := False, st_stopped := True\<rparr>))
            else
              (let this = (if \<not> st_pausing this then this\<lparr>st_stopping := True\<rparr> else this);
                   this = debounce_cancel this;
                   this = out (Channel_written [''/cancel'', ''=tag='' @ st_ch_id this]) this
               in (Pending, this\<lparr>st_cancels := st_cancels this @ [StopThen]\<rparr>))))"

definition close :: "rstream \<Rightarrow> promise \<times> rstream" where
  "close this = stop False this"

definition stop_then :: "rstream \<Rightarrow> rstream" where
  "stop_then this0 =
     (let this = this0\<lparr>st_streaming := False\<rparr>;
          this = (if \<not> st_pausing this then this\<lparr>st_stopping := False, st_stopped := True\<rparr>
                  else this)
      in out Emit_stopped this)"

definition pause_then :: "rstream \<Rightarrow> rstream" where
  "pause_then this = this\<lparr>st_pausing := False, st_paused := True\<rparr>"

definition pause :: "rstream \<Rightarrow> promise \<times> rstream" where
  "pause this0 =
     (if st_stopped this0 \<or> st_stopping this0 then (Rejected ''STREAMCLOSD'', this0)
      else if st_pausing this0 \<or> st_paused this0 then (Resolved, this0)
      else if st_streaming this0 then
        (case stop True (this0\<lparr>st_pausing := True\<rparr>) of
           (Pending, this) \<Rightarrow>
             (Pending, this\<lparr>st_cancels := butlast (st_cancels this) @ [StopThenPauseThen]\<rparr>)
         | (Resolved, this) \<Rightarrow> (Resolved, pause_then this)
         | (Rejected e, this) \<Rightarrow> (Rejected e, this))
      else (Resolved, this0))"

definition resume :: "rstream \<Rightarrow> promise \<times> rstream" where
  "resume this =
     (if st_stopped this \<or> st_stopping this then (Rejected ''STREAMCLOSD'', this)
      else if \<not> st_streaming this
      then (Resolved, (start (this\<lparr>st_pausing := False\<rparr>))\<lparr>st_streaming := True\<rparr>)
      else (Resolved, this))"

definition cancel_done :: "nat \<Rightarrow> rstream \<Rightarrow> rstream" where
  "cancel_done i this0 =
     (if i < length (st_cancels this0) then
        (let k = st_cancels this0 ! i;
             this = this0\<lparr>st_cancels := take i (st_cancels this0) @ drop (Suc i) (st_cancels this0)\<rparr>;
             this = stop_then this
         in if k = StopThenPauseThen then pause_then this else this)
      else this0)"

text \<open>\<open>onTrap\<close> and \<open>onDone\<close>, the once-listeners on the Channel's \<open>trap\<close> and \<open>done\<close>.\<close>

definition onTrap :: "js_object \<Rightarrow> rstream \<Rightarrow> string option \<times> rstream" where
  "onTrap data this0 =
     (if data ''message'' = Some ''interrupted'' then (None, this0\<lparr>st_streaming := False\<rparr>)
      else
        (let this = this0\<lparr>st_stopped := True, st_trapped := True\<rparr>
         in if st_callback this
            then (None, out (Emit_trap data) (out (Callback_error (Error_message data)) this))
            else if st_error_listener this
            then (None, out (Emit_trap data) (out (Emit_error data) this))
            else (Some ''ERR_UNHANDLED_ERROR'', out (Emit_error data) this)))"

definition onDone :: "rstream \<Rightarrow> rstream" where
  "onDone this = (if st_stopped this then channel_close True this else this)"

text \<open>
  The listener on the Channel's \<open>stream\<close> event, and the Channel's events as they
  reach the Stream's listeners. An exception leaves the emit.
\<close>

definition stream_listener :: "js_object \<Rightarrow> rstream \<Rightarrow> rstream" where
  "stream_listener packet this =
     onStream (Parsed packet) (case st_debounce this of None \<Rightarrow> this | Some t \<Rightarrow> debounce_run this)"

definition channel_emit_stream :: "js_object \<Rightarrow> rstream \<Rightarrow> rstream" where
  "channel_emit_stream packet this = (stream_listener packet ^^ st_ch_stream this) this"

fun emit_once :: "nat \<Rightarrow> (rstream \<Rightarrow> string option \<times> rstream) \<Rightarrow> rstream
    \<Rightarrow> string option \<times> rstream" where
  "emit_once 0 f this = (None, this)"
| "emit_once (Suc n) f this =
     (case f this of
        (Some e, this') \<Rightarrow> (Some e, this')
      | (None, this') \<Rightarrow> emit_once n f this')"

definition channel_emit_trap :: "js_object \<Rightarrow> rstream \<Rightarrow> string option \<times> rstream" where
  "channel_emit_trap data this =
     emit_once (st_ch_trap this) (onTrap data) (this\<lparr>st_ch_trap := 0\<rparr>)"

definition channel_emit_done :: "rstream \<Rightarrow> rstream" where
  "channel_emit_done this = (onDone ^^ st_ch_done this) (this\<lparr>st_ch_done := 0\<rparr>)"

lemmas stream_defs = stop_def close_def pause_def resume_def start_def onTrap_def out_def
  channel_close_def close_listener_def debounce_cancel_def clearTimeout_def RStream_new_def
  stop_then_def pause_then_def cancel_done_def

text \<open>
  \<open>RouterOSAPI.stream\<close>, as far as the Stream goes: construct, \<open>start()\<close>, then
  \<open>prepareDebounceEmptyData()\<close>.
\<close>

definition RouterOSAPI_stream :: "string \<Rightarrow> string list \<Rightarrow> bool \<Rightarrow> nat \<Rightarrow> rstream" where
  "RouterOSAPI_stream tag params callback now =
     prepareDebounceEmptyData (start (RStream_new tag params callback now))"

subsection \<open>Timers\<close>

text \<open>
  The runtime's timers, one millisecond at a time: the clock advances, then every
  timer that is due fires, one after the other, each removed before its callback
  runs. A callback only sets timers for later, so as many rounds as there are
  timers suffice.
\<close>

definition fire_callback :: "timer_kind \<Rightarrow> rstream \<Rightarrow> rstream" where
  "fire_callback k this =
     (case k of
        SectionSend \<Rightarrow> sendData this
      | DebounceCurrent \<Rightarrow> debounce_callback this
      | DebounceOrphan \<Rightarrow> debounce_callback this)"

definition fire_first_due :: "rstream \<Rightarrow> rstream" where
  "fire_first_due this =
     (case find (\<lambda>e. fst e \<le> st_now this) (st_timers this) of
        None \<Rightarrow> this
      | Some e \<Rightarrow> fire_callback (snd e) (this\<lparr>st_timers := remove1 e (st_timers this)\<rparr>))"

definition tick :: "rstream \<Rightarrow> rstream" where
  "tick this0 =
     (let this = this0\<lparr>st_now := Suc (st_now this0)\<rparr>
      in (fire_first_due ^^ length (st_timers this)) this)"

definition elapse :: "nat \<Rightarrow> rstream \<Rightarrow> rstream" where
  "elapse d this = (tick ^^ d) this"

subsection \<open>Calls and events\<close>

text \<open>
  What can happen to a started Stream, and a sequence of it: the calls, the answer to
  one of its \<open>/cancel\<close> commands, the events of its Channel, and time that passes.
\<close>

datatype stream_call =
    CallPause | CallResume | CallStop | CallClose
  | CancelDone nat | TrapEvent js_object | DoneEvent | StreamEvent js_object | CloseEvent
  | Wait nat

definition stream_step :: "stream_call \<Rightarrow> rstream \<Rightarrow> rstream" where
  "stream_step c this =
     (case c of
        CallPause \<Rightarrow> snd (pause this)
      | CallResume \<Rightarrow> snd (resume this)
      | CallStop \<Rightarrow> snd (stop False this)
      | CallClose \<Rightarrow> snd (close this)
      | CancelDone i \<Rightarrow> cancel_done i this
      | TrapEvent data \<Rightarrow> snd (channel_emit_trap data this)
      | DoneEvent \<Rightarrow> channel_emit_done this
      | StreamEvent packet \<Rightarrow> channel_emit_stream packet this
      | CloseEvent \<Rightarrow> channel_close False this
      | Wait d \<Rightarrow> elapse d this)"

definition stream_run :: "stream_call list \<Rightarrow> rstream \<Rightarrow> rstream" where
  "stream_run cs this = foldl (\<lambda>s c. stream_step c s) this cs"

text \<open>
  The \<open>/cancel\<close> commands a Stream has written, the calls among what can happen to
  it, the answers to its \<open>/cancel\<close> commands, and the events that close its Channel.
\<close>

fun is_cancel :: "stream_out \<Rightarrow> bool" where
  "is_cancel (Channel_written ws) = (take 1 ws = [''/cancel''])"
| "is_cancel _ = False"

definition cancels :: "rstream \<Rightarrow> nat" where
  "cancels this = length (filter is_cancel (st_log this))"

definition is_call :: "stream_call \<Rightarrow> bool" where
  "is_call c = (c = CallPause \<or> c = CallResume \<or> c = CallStop \<or> c = CallClose)"

definition answers_cancel :: "stream_call \<Rightarrow> bool" where
  "answers_cancel c = (case c of CancelDone i \<Rightarrow> True | _ \<Rightarrow> False)"

definition closes_channel :: "stream_call \<Rightarrow> bool" where
  "closes_channel c = (c = DoneEvent \<or> c = CloseEvent)"

text \<open>
  A Stream that counts as stopped for \<open>stop\<close>, \<open>pause\<close> and \<open>resume\<close>, with no pause in
  progress, and that has written \<open>n\<close> commands \<open>/cancel\<close>: it is \<open>stopping\<close>, or, once
  its \<open>/cancel\<close> may have been answered, \<open>stopped\<close>.
\<close>

definition stopped_with :: "bool \<Rightarrow> nat \<Rightarrow> rstream \<Rightarrow> bool" where
  "stopped_with answered n this \<longleftrightarrow>
     (st_stopping this \<or> (answered \<and> st_stopped this)) \<and> \<not> st_pausing this \<and>
     cancels this = n"

lemma emit_once_keeps:
  "(\<And>s. Q s \<Longrightarrow> Q (snd (f s))) \<Longrightarrow> Q s \<Longrightarrow> Q (snd (emit_once n f s))"
proof (induction n arbitrary: s)
  case 0
  then show ?case by simp
next
  case (Suc n)
  obtain e s' where f: "f s = (e, s')" by (cases "f s")
  from Suc.prems(1) [OF Suc.prems(2)] f have q: "Q s'" by simp
  show ?case
  proof (cases e)
    case None
    with f Suc.IH [OF Suc.prems(1) q] show ?thesis by simp
  next
    case (Some a)
    with f q show ?thesis by simp
  qed
qed

lemma funpow_keeps: "(\<And>s. Q s \<Longrightarrow> Q (f s)) \<Longrightarrow> Q s \<Longrightarrow> Q ((f ^^ n) s)"
  by (induction n) auto

lemma stopped_with_answered: "stopped_with b n s \<Longrightarrow> stopped_with True n s"
  by (auto simp: stopped_with_def)

lemma stopped_with_flag: "stopped_with b n s \<Longrightarrow> st_stopped s \<or> st_stopping s"
  by (auto simp: stopped_with_def)

lemma onTrap_keeps: "stopped_with b n s \<Longrightarrow> stopped_with b n (snd (onTrap data s))"
  by (auto simp: stopped_with_def cancels_def onTrap_def out_def Let_def)

lemma onStream_keeps: "stopped_with b n s \<Longrightarrow> stopped_with b n (onStream packet s)"
  by (auto simp: stopped_with_def cancels_def onStream_def out_def Let_def sendData_def
      clearTimeout_def setTimeout_def split: option.splits)

lemma debounce_run_keeps: "stopped_with b n s \<Longrightarrow> stopped_with b n (debounce_run s)"
  by (auto simp: stopped_with_def cancels_def debounce_run_def clearTimeout_def setTimeout_def
      split: option.splits)

lemma stream_listener_keeps:
  "stopped_with b n s \<Longrightarrow> stopped_with b n (stream_listener packet s)"
proof -
  assume a: "stopped_with b n s"
  have "stopped_with b n (case st_debounce s of None \<Rightarrow> s | Some t \<Rightarrow> debounce_run s)"
    using a by (simp add: debounce_run_keeps split: option.splits)
  then show ?thesis unfolding stream_listener_def by (rule onStream_keeps)
qed

lemma fire_callback_keeps: "stopped_with b n s \<Longrightarrow> stopped_with b n (fire_callback k s)"
proof (cases k)
  case SectionSend
  assume "stopped_with b n s"
  then show ?thesis
    using SectionSend
    by (simp add: fire_callback_def stopped_with_def cancels_def sendData_def out_def)
next
  case DebounceCurrent
  assume "stopped_with b n s"
  then show ?thesis
    using DebounceCurrent
    by (simp add: fire_callback_def debounce_callback_def debounce_run_keeps onStream_keeps)
next
  case DebounceOrphan
  assume "stopped_with b n s"
  then show ?thesis
    using DebounceOrphan
    by (simp add: fire_callback_def debounce_callback_def debounce_run_keeps onStream_keeps)
qed

lemma fire_first_due_keeps: "stopped_with b n s \<Longrightarrow> stopped_with b n (fire_first_due s)"
proof -
  assume a: "stopped_with b n s"
  have "stopped_with b n (fire_callback k (s\<lparr>st_timers := ts\<rparr>))" for k ts
    using a by (intro fire_callback_keeps) (simp add: stopped_with_def cancels_def)
  with a show ?thesis by (simp add: fire_first_due_def split: option.splits)
qed

lemma tick_keeps: "stopped_with b n s \<Longrightarrow> stopped_with b n (tick s)"
proof -
  assume a: "stopped_with b n s"
  let ?s = "s\<lparr>st_now := Suc (st_now s)\<rparr>"
  from a have "stopped_with b n ?s" by (simp add: stopped_with_def cancels_def)
  then have "stopped_with b n ((fire_first_due ^^ length (st_timers ?s)) ?s)"
    using funpow_keeps [of "stopped_with b n" fire_first_due] fire_first_due_keeps by blast
  then show ?thesis by (simp add: tick_def Let_def)
qed

lemma elapse_keeps: "stopped_with b n s \<Longrightarrow> stopped_with b n (elapse d s)"
  unfolding elapse_def
  using funpow_keeps [of "stopped_with b n" tick] tick_keeps by blast

text \<open>
  The answer to a \<open>/cancel\<close> turns \<open>stopping\<close> into \<open>stopped\<close>. The close of the Channel
  clears \<open>stopped\<close> and leaves \<open>stopping\<close> as it is.
\<close>

lemma cancel_done_keeps: "stopped_with b n s \<Longrightarrow> stopped_with True n (cancel_done i s)"
  by (auto simp: stopped_with_def cancels_def cancel_done_def stop_then_def pause_then_def
      out_def Let_def)

lemma close_listener_keeps:
  "stopped_with False n s \<Longrightarrow> stopped_with False n (close_listener s)"
  by (auto simp: stopped_with_def cancels_def close_listener_def out_def Let_def)

lemma channel_close_keeps:
  assumes "stopped_with False n s"
  shows "stopped_with False n (channel_close force s)"
proof -
  have "stopped_with False n ((close_listener ^^ st_ch_close s) s)"
    using funpow_keeps [of "stopped_with False n" close_listener] close_listener_keeps assms
    by blast
  then show ?thesis
    by (simp add: channel_close_def Let_def stopped_with_def cancels_def)
qed

lemma onDone_keeps: "stopped_with False n s \<Longrightarrow> stopped_with False n (onDone s)"
  by (simp add: onDone_def channel_close_keeps)

lemma channel_emit_done_keeps:
  assumes "stopped_with False n s"
  shows "stopped_with False n (channel_emit_done s)"
proof -
  from assms have "stopped_with False n (s\<lparr>st_ch_done := 0\<rparr>)"
    by (simp add: stopped_with_def cancels_def)
  then show ?thesis
    unfolding channel_emit_done_def
    using funpow_keeps [of "stopped_with False n" onDone] onDone_keeps by blast
qed

lemma call_keeps:
  assumes "st_stopped s \<or> st_stopping s" and "is_call c"
  shows "stream_step c s = s"
proof -
  have "snd (pause s) = s" "snd (resume s) = s" "snd (stop False s) = s" "snd (close s) = s"
    using assms(1) by (simp_all add: pause_def resume_def stop_def close_def)
  then show ?thesis
    using assms(2) by (auto simp: is_call_def stream_step_def)
qed

lemma step_keeps_event:
  assumes "stopped_with b n s" and "\<not> closes_channel c" and "\<not> answers_cancel c"
  shows "stopped_with b n (stream_step c s)"
proof (cases "is_call c")
  case True
  from call_keeps [OF stopped_with_flag [OF assms(1)] True] assms(1) show ?thesis by simp
next
  case False
  show ?thesis
  proof (cases c)
    case (CancelDone i)
    then show ?thesis using assms(3) by (simp add: answers_cancel_def)
  next
    case (TrapEvent data)
    have "stopped_with b n (s\<lparr>st_ch_trap := 0\<rparr>)"
      using assms(1) by (simp add: stopped_with_def cancels_def)
    then have "stopped_with b n
        (snd (emit_once (st_ch_trap s) (onTrap data) (s\<lparr>st_ch_trap := 0\<rparr>)))"
      using emit_once_keeps [of "stopped_with b n" "onTrap data"] onTrap_keeps by blast
    then show ?thesis using TrapEvent by (simp add: stream_step_def channel_emit_trap_def)
  next
    case (StreamEvent packet)
    have "stopped_with b n ((stream_listener packet ^^ st_ch_stream s) s)"
      using funpow_keeps [of "stopped_with b n" "stream_listener packet"] stream_listener_keeps
        assms(1) by blast
    then show ?thesis using StreamEvent by (simp add: stream_step_def channel_emit_stream_def)
  next
    case DoneEvent
    then show ?thesis using assms(2) by (simp add: closes_channel_def)
  next
    case CloseEvent
    then show ?thesis using assms(2) by (simp add: closes_channel_def)
  next
    case (Wait d)
    then show ?thesis using assms(1) by (simp add: stream_step_def elapse_keeps)
  qed (use False in \<open>simp_all add: is_call_def\<close>)
qed

lemma step_keeps_before:
  assumes "stopped_with False n s" and "\<not> answers_cancel c"
  shows "stopped_with False n (stream_step c s)"
proof (cases "closes_channel c")
  case True
  then show ?thesis
    using assms(1)
    by (auto simp: closes_channel_def stream_step_def channel_emit_done_keeps channel_close_keeps)
next
  case False
  with assms show ?thesis by (simp add: step_keeps_event)
qed

lemma step_keeps_after:
  assumes "stopped_with True n s" and "\<not> closes_channel c"
  shows "stopped_with True n (stream_step c s)"
proof (cases "answers_cancel c")
  case True
  then obtain i where "c = CancelDone i"
    by (cases c) (simp_all add: answers_cancel_def)
  with assms(1) show ?thesis by (simp add: stream_step_def cancel_done_keeps)
next
  case False
  with assms show ?thesis by (simp add: step_keeps_event)
qed

lemma run_keeps_before:
  "stopped_with False n s \<Longrightarrow> \<forall>c \<in> set cs. \<not> answers_cancel c \<Longrightarrow>
   stopped_with False n (stream_run cs s)"
  unfolding stream_run_def
  by (induction cs arbitrary: s) (simp_all add: step_keeps_before)

lemma run_keeps_after:
  "stopped_with True n s \<Longrightarrow> \<forall>c \<in> set cs. \<not> closes_channel c \<Longrightarrow>
   stopped_with True n (stream_run cs s)"
  unfolding stream_run_def
  by (induction cs arbitrary: s) (simp_all add: step_keeps_after)

lemma run_append: "stream_run (as @ bs) s = stream_run bs (stream_run as s)"
  by (simp add: stream_run_def)

lemma run_calls:
  "st_stopped s \<or> st_stopping s \<Longrightarrow> \<forall>c \<in> set cs. is_call c \<Longrightarrow> stream_run cs s = s"
  unfolding stream_run_def
  by (induction cs arbitrary: s) (simp_all add: call_keeps)

lemma stop_sets:
  assumes "\<not> st_paused s" "\<not> st_pausing s" "\<not> st_stopped s" "\<not> st_stopping s"
  shows "fst (stop False s) = Pending" and "st_stopping (snd (stop False s))"
    and "stopped_with False (Suc (cancels s)) (snd (stop False s))"
  using assms
  by (simp_all add: stop_def stopped_with_def cancels_def out_def debounce_cancel_def
      clearTimeout_def Let_def split: option.splits)

text \<open>
  Claim C10, as amended. A Stream, in whatever state its calls and events have left
  it, is neither paused nor pausing, and not yet stopped or stopping. A call of
  \<open>stop\<close> then returns a pending promise, sets \<open>stopping\<close> and writes one \<open>/cancel\<close>.
  From then on \<open>stopping\<close> or \<open>stopped\<close> stays set and no further \<open>/cancel\<close> is written,
  through every sequence of calls of \<open>pause\<close>, \<open>resume\<close>, \<open>stop\<close> and \<open>close\<close>, of \<open>trap\<close>
  and \<open>stream\<close> events of the Channel, of time that passes, of closes of the Channel
  before the first answer to a \<open>/cancel\<close> and of answers to \<open>/cancel\<close> commands after
  that: a further \<open>stop\<close> or \<open>close\<close> returns a resolved promise and leaves the Stream
  as it is, and a sequence of calls alone leaves it as the first \<open>stop\<close> left it.
  Nothing is said of a Stream whose Channel has closed after an answer to a
  \<open>/cancel\<close>.
\<close>

theorem stop_once_cancels_once:
  fixes s :: rstream and ds es :: "stream_call list"
  defines "x \<equiv> stream_run (CallStop # ds @ es) s"
  assumes "\<not> st_paused s" and "\<not> st_pausing s" and "\<not> st_stopped s" and "\<not> st_stopping s"
    and "\<forall>d \<in> set ds. \<not> answers_cancel d"
    and "\<forall>e \<in> set es. \<not> closes_channel e"
  shows "fst (stop False s) = Pending \<and> st_stopping (snd (stop False s)) \<and>
         cancels (snd (stop False s)) = Suc (cancels s) \<and>
         cancels x = Suc (cancels s) \<and> (st_stopped x \<or> st_stopping x) \<and>
         stop False x = (Resolved, x) \<and> close x = (Resolved, x) \<and>
         ((\<forall>d \<in> set (ds @ es). is_call d) \<longrightarrow> x = snd (stop False s))"
proof -
  note st = stop_sets [OF assms(2-5)]
  have x: "x = stream_run es (stream_run ds (snd (stop False s)))"
    by (simp add: x_def stream_run_def stream_step_def)
  from run_keeps_before [OF st(3) assms(6)]
  have "stopped_with True (Suc (cancels s)) (stream_run ds (snd (stop False s)))"
    by (rule stopped_with_answered)
  from run_keeps_after [OF this assms(7)] have k: "stopped_with True (Suc (cancels s)) x"
    by (simp add: x)
  then have f: "st_stopped x \<or> st_stopping x" by (rule stopped_with_flag)
  have c: "x = snd (stop False s)" if "\<forall>d \<in> set (ds @ es). is_call d"
  proof -
    have "x = stream_run (ds @ es) (snd (stop False s))" by (simp add: x run_append)
    also have "\<dots> = snd (stop False s)"
      using stopped_with_flag [OF st(3)] that by (rule run_calls)
    finally show ?thesis .
  qed
  have g: "stop False x = (Resolved, x)" "close x = (Resolved, x)"
    using f by (simp_all add: stop_def close_def)
  from k have n: "cancels x = Suc (cancels s)" by (simp add: stopped_with_def)
  from st(3) have m: "cancels (snd (stop False s)) = Suc (cancels s)"
    by (simp add: stopped_with_def)
  from st(1,2) m n f g c show ?thesis by blast
qed

text \<open>
  A Stream with an interval of one second that is stopped three times, paused,
  resumed and closed, while a late packet arrives, the command completes and its
  Channel closes, five seconds pass and the router answers the one \<open>/cancel\<close>.
\<close>

theorem stop_once_cancels_once_witness:
  "cancels (stream_run
      [CallStop, CallStop, CallPause, StreamEvent [''name'' \<mapsto> ''ether1''],
       TrapEvent [''message'' \<mapsto> ''interrupted''], DoneEvent, CloseEvent, Wait 5000,
       CancelDone 0, CallClose, CallResume, CallStop]
      (RouterOSAPI_stream ''t1'' [''/interface/monitor-traffic'', ''=interval=1''] True 0)) = 1 \<and>
   stop False (stream_run
      [CallStop, CallStop, CallPause, StreamEvent [''name'' \<mapsto> ''ether1''],
       TrapEvent [''message'' \<mapsto> ''interrupted''], DoneEvent, CloseEvent, Wait 5000,
       CancelDone 0, CallClose, CallResume, CallStop]
      (RouterOSAPI_stream ''t1'' [''/interface/monitor-traffic'', ''=interval=1''] True 0))
     = (Resolved, stream_run
      [CallStop, CallStop, CallPause, StreamEvent [''name'' \<mapsto> ''ether1''],
       TrapEvent [''message'' \<mapsto> ''interrupted''], DoneEvent, CloseEvent, Wait 5000,
       CancelDone 0, CallClose, CallResume, CallStop]
      (RouterOSAPI_stream ''t1'' [''/interface/monitor-traffic'', ''=interval=1''] True 0)) \<and>
   stream_run [CallStop, CallStop, CallPause, CallClose, CallResume]
      (RouterOSAPI_stream ''t1'' [''/interface/monitor-traffic'', ''=interval=1''] True 0)
     = snd (stop False
      (RouterOSAPI_stream ''t1'' [''/interface/monitor-traffic'', ''=interval=1''] True 0))"
proof -
  let ?s = "RouterOSAPI_stream ''t1'' [''/interface/monitor-traffic'', ''=interval=1''] True 0"
  let ?ds = "[CallStop, CallPause, StreamEvent [''name'' \<mapsto> ''ether1''],
       TrapEvent [''message'' \<mapsto> ''interrupted''], DoneEvent, CloseEvent, Wait 5000]"
  let ?es = "[CancelDone 0, CallClose, CallResume, CallStop]"
  let ?cs = "[CallStop, CallPause, CallClose, CallResume]"
  have f: "\<not> st_paused ?s" "\<not> st_pausing ?s" "\<not> st_stopped ?s" "\<not> st_stopping ?s"
    and c: "cancels ?s = 0"
    by (simp_all add: RouterOSAPI_stream_def prepareDebounceEmptyData_def start_def
        RStream_new_def out_def Let_def cancels_def)
  have d: "\<forall>d \<in> set ?ds. \<not> answers_cancel d" and e: "\<forall>d \<in> set ?es. \<not> closes_channel d"
    by (simp_all add: closes_channel_def answers_cancel_def)
  have d': "\<forall>d \<in> set ?cs. \<not> answers_cancel d" and e': "\<forall>d \<in> set []. \<not> closes_channel d"
    and i: "\<forall>d \<in> set (?cs @ []). is_call d"
    by (simp_all add: answers_cancel_def is_call_def)
  from stop_once_cancels_once [of ?s ?ds ?es, OF f d e] c
  have 1: "cancels (stream_run (CallStop # ?ds @ ?es) ?s) = 1"
    and 2: "stop False (stream_run (CallStop # ?ds @ ?es) ?s)
              = (Resolved, stream_run (CallStop # ?ds @ ?es) ?s)"
    by simp_all
  from stop_once_cancels_once [of ?s ?cs "[]", OF f d' e'] i
  have 3: "stream_run (CallStop # ?cs @ []) ?s = snd (stop False ?s)"
    by blast
  from 1 2 3 show ?thesis by simp
qed

text \<open>
  Claim C10 as stated (for every prior sequence of calls) fails while a pause is in
  progress: \<open>stop\<close> then leaves \<open>stopping\<close> unset, so after \<open>pause(); stop()\<close> a second
  \<open>stop()\<close> is not resolved at once and writes a third \<open>/cancel\<close>.
\<close>

theorem stop_while_pausing_counterexample:
  "fst (stop False (stream_run [CallPause, CallStop]
       (start (RStream_new ''t1'' [''/interface/listen''] True 0)))) = Pending \<and>
   cancels (stream_run [CallPause, CallStop]
       (start (RStream_new ''t1'' [''/interface/listen''] True 0))) = 2 \<and>
   cancels (stream_run [CallPause, CallStop, CallStop]
       (start (RStream_new ''t1'' [''/interface/listen''] True 0))) = 3"
  by (simp add: stream_run_def stream_step_def stream_defs cancels_def Let_def)

text \<open>
  The flags are what the guard of \<open>stop\<close> reads, and the listener on the Channel's
  \<open>close\<close> clears \<open>stopped\<close>. When the Channel closes after the \<open>/cancel\<close> has been
  answered, the Stream no longer counts as stopped and the next \<open>stop\<close> writes another
  \<open>/cancel\<close>; and a \<open>stop\<close> on a paused Stream closes the Channel itself, so that the
  Stream does not count as stopped for the next \<open>stop\<close>, which sets the flag once more.
\<close>

lemma stop_after_channel_closed:
  "cancels (stream_run
      [CallStop, CancelDone 0, TrapEvent [''message'' \<mapsto> ''interrupted''], CloseEvent]
      (start (RStream_new ''t1'' [''/interface/listen''] True 0))) = 1 \<and>
   \<not> st_stopped (stream_run
      [CallStop, CancelDone 0, TrapEvent [''message'' \<mapsto> ''interrupted''], CloseEvent]
      (start (RStream_new ''t1'' [''/interface/listen''] True 0))) \<and>
   cancels (stream_run
      [CallStop, CancelDone 0, TrapEvent [''message'' \<mapsto> ''interrupted''], CloseEvent, CallStop]
      (start (RStream_new ''t1'' [''/interface/listen''] True 0))) = 2"
  by (simp add: stream_run_def stream_step_def stream_defs channel_emit_trap_def cancels_def Let_def)

lemma stop_from_paused_clears_stopped:
  "st_paused (stream_run [CallPause, CancelDone 0]
       (start (RStream_new ''t1'' [''/interface/listen''] True 0))) \<and>
   \<not> st_stopped (stream_run [CallPause, CancelDone 0, CallStop]
       (start (RStream_new ''t1'' [''/interface/listen''] True 0))) \<and>
   st_stopped (stream_run [CallPause, CancelDone 0, CallStop, CallStop]
       (start (RStream_new ''t1'' [''/interface/listen''] True 0)))"
  by (simp add: stream_run_def stream_step_def stream_defs Let_def)

text \<open>
  Claim C6, as amended. A trap whose message is exactly \<open>interrupted\<close> clears the
  \<open>streaming\<close> flag and changes nothing else: no error reaches the callback or the
  \<open>error\<close> event, and the Stream is not made paused by it (the \<open>paused\<close> flag is set
  when the \<open>/cancel\<close> of \<open>pause\<close> completes). A trap with any other message sets
  \<open>stopped\<close> and \<open>trapped\<close> and surfaces the error: to the callback when one is set,
  otherwise as an \<open>error\<close> event, which throws when nobody listens; the \<open>trap\<close> event
  follows unless that exception was thrown.
\<close>

theorem onTrap_effect:
  "(data ''message'' = Some ''interrupted'' \<longrightarrow>
      onTrap data s = (None, s\<lparr>st_streaming := False\<rparr>)) \<and>
   (data ''message'' \<noteq> Some ''interrupted'' \<longrightarrow>
      st_stopped (snd (onTrap data s)) \<and> st_trapped (snd (onTrap data s)) \<and>
      st_log (snd (onTrap data s)) = st_log s @
        (if st_callback s then [Callback_error (Error_message data), Emit_trap data]
         else if st_error_listener s then [Emit_error data, Emit_trap data]
         else [Emit_error data]) \<and>
      (fst (onTrap data s) = None \<longleftrightarrow> st_callback s \<or> st_error_listener s))"
  by (simp add: onTrap_def out_def Let_def)

theorem onTrap_effect_witness:
  "onTrap [''message'' \<mapsto> ''interrupted''] (start (RStream_new ''t1'' [''/interface/listen''] True 0))
     = (None, (start (RStream_new ''t1'' [''/interface/listen''] True 0))\<lparr>st_streaming := False\<rparr>) \<and>
   st_stopped (snd (onTrap [''message'' \<mapsto> ''no such item'']
      (start (RStream_new ''t1'' [''/interface/listen''] True 0)))) \<and>
   st_log (snd (onTrap [''message'' \<mapsto> ''no such item'']
      (start (RStream_new ''t1'' [''/interface/listen''] True 0))))
     = [Channel_written [''/interface/listen''], Emit_started, Callback_error ''no such item'',
        Emit_trap [''message'' \<mapsto> ''no such item'']]"
proof -
  let ?s = "start (RStream_new ''t1'' [''/interface/listen''] True 0)"
  have c: "st_callback ?s" and l: "st_log ?s = [Channel_written [''/interface/listen''], Emit_started]"
    by (simp_all add: stream_defs Let_def)
  from onTrap_effect [of "[''message'' \<mapsto> ''interrupted'']" ?s]
  have a: "onTrap [''message'' \<mapsto> ''interrupted''] ?s = (None, ?s\<lparr>st_streaming := False\<rparr>)"
    by simp
  from onTrap_effect [of "[''message'' \<mapsto> ''no such item'']" ?s] c l
  have b: "st_stopped (snd (onTrap [''message'' \<mapsto> ''no such item''] ?s))"
    "st_log (snd (onTrap [''message'' \<mapsto> ''no such item''] ?s))
       = [Channel_written [''/interface/listen''], Emit_started, Callback_error ''no such item'',
          Emit_trap [''message'' \<mapsto> ''no such item'']]"
    by (simp_all add: Error_message_def)
  from a b show ?thesis by blast
qed

text \<open>
  Claim C6 as stated (the trap \<open>interrupted\<close> makes the Stream paused) fails. After
  \<open>pause\<close> the Stream is pausing, and it still is, and is not paused, once the trap
  has arrived. After \<open>stop\<close> the same trap arrives, and the Stream ends stopped, never
  paused.
\<close>

theorem interrupted_trap_counterexample:
  "st_pausing (stream_run [CallPause] (start (RStream_new ''t1'' [''/interface/listen''] True 0))) \<and>
   \<not> st_paused (stream_run [CallPause, TrapEvent [''message'' \<mapsto> ''interrupted'']]
        (start (RStream_new ''t1'' [''/interface/listen''] True 0))) \<and>
   \<not> st_paused (stream_run [CallStop, TrapEvent [''message'' \<mapsto> ''interrupted''], CancelDone 0]
        (start (RStream_new ''t1'' [''/interface/listen''] True 0))) \<and>
   st_stopped (stream_run [CallStop, TrapEvent [''message'' \<mapsto> ''interrupted''], CancelDone 0]
        (start (RStream_new ''t1'' [''/interface/listen''] True 0)))"
  by (simp add: stream_run_def stream_step_def stream_defs channel_emit_trap_def Let_def)

subsection \<open>Silence and the debounce timer\<close>

text \<open>While no timer is due, time passes and nothing else happens.\<close>

lemma fire_none_due:
  "\<forall>e \<in> set (st_timers s). st_now s < fst e \<Longrightarrow> fire_first_due s = s"
proof -
  assume a: "\<forall>e \<in> set (st_timers s). st_now s < fst e"
  have "find (\<lambda>e. fst e \<le> st_now s) (st_timers s) = None"
    using a by (auto simp: find_None_iff)
  then show ?thesis by (simp add: fire_first_due_def)
qed

lemma funpow_fixed: "f x = x \<Longrightarrow> (f ^^ n) x = x"
  by (induction n) auto

lemma tick_idle:
  "\<forall>e \<in> set (st_timers s). Suc (st_now s) < fst e \<Longrightarrow> tick s = s\<lparr>st_now := Suc (st_now s)\<rparr>"
  by (simp add: tick_def Let_def fire_none_due funpow_fixed)

lemma elapse_idle:
  "\<forall>e \<in> set (st_timers s). st_now s + d < fst e \<Longrightarrow> elapse d s = s\<lparr>st_now := st_now s + d\<rparr>"
proof (induction d arbitrary: s)
  case 0
  then show ?case by (simp add: elapse_def)
next
  case (Suc d)
  from Suc.prems have t: "tick s = s\<lparr>st_now := Suc (st_now s)\<rparr>"
    by (intro tick_idle) auto
  have "elapse (Suc d) s = elapse d (tick s)"
    by (simp add: elapse_def funpow_swap1)
  also have "\<dots> = (tick s)\<lparr>st_now := st_now (tick s) + d\<rparr>"
    using Suc.prems by (intro Suc.IH) (auto simp: t)
  finally show ?case by (simp add: t)
qed

lemma elapse_add: "elapse (a + b) s = elapse b (elapse a s)"
proof -
  have "a + b = b + a" by simp
  then show ?thesis by (simp only: elapse_def funpow_add o_apply)
qed

lemma live_guard:
  "\<not> st_stopped s \<or> \<not> st_stopping s \<or> \<not> st_paused s \<or> \<not> st_pausing s \<Longrightarrow>
   debounce_callback s = debounce_run (onStream EmptyArray s)"
  by (simp add: debounce_callback_def)

lemma tick_fires_debounce:
  assumes "st_timers s = [(Suc (st_now s), DebounceCurrent)]"
    and "st_debounce s = Some timeout"
    and "\<not> st_stopped s \<or> \<not> st_stopping s \<or> \<not> st_paused s \<or> \<not> st_pausing s"
  shows "tick s = (s\<lparr>st_now := Suc (st_now s),
                     st_timers := [(Suc (st_now s) + timeout_delay timeout, DebounceCurrent)],
                     st_log := st_log s @ Emit_data EmptyArray #
                        (if st_callback s then [Callback_data EmptyArray] else [])\<rparr>)"
  using assms
  by (simp add: tick_def Let_def fire_first_due_def fire_callback_def debounce_callback_def
      debounce_run_def onStream_def out_def section_of_def setTimeout_def clearTimeout_def)

lemma elapse_fires_debounce:
  assumes "st_timers s = [(st_now s + D, DebounceCurrent)]" and "0 < D"
    and "st_debounce s = Some timeout"
    and "\<not> st_stopped s \<or> \<not> st_stopping s \<or> \<not> st_paused s \<or> \<not> st_pausing s"
  shows "elapse D s = (s\<lparr>st_now := st_now s + D,
                     st_timers := [(st_now s + D + timeout_delay timeout, DebounceCurrent)],
                     st_log := st_log s @ Emit_data EmptyArray #
                        (if st_callback s then [Callback_data EmptyArray] else [])\<rparr>)"
proof -
  from assms(2) obtain d where D: "D = d + 1" by (cases D) auto
  let ?s1 = "s\<lparr>st_now := st_now s + d\<rparr>"
  have e1: "elapse d s = ?s1"
    using assms(1) D by (intro elapse_idle) simp
  have "elapse D s = tick ?s1"
    unfolding D elapse_add e1 by (simp add: elapse_def)
  also have "\<dots> = (?s1\<lparr>st_now := Suc (st_now ?s1),
                     st_timers := [(Suc (st_now ?s1) + timeout_delay timeout, DebounceCurrent)],
                     st_log := st_log ?s1 @ Emit_data EmptyArray #
                        (if st_callback ?s1 then [Callback_data EmptyArray] else [])\<rparr>)"
    using assms D by (intro tick_fires_debounce) simp_all
  finally show ?thesis by (simp add: D)
qed

















text \<open>
  The guard of the debounce callback is a disjunction of the four negated flags, so
  it only holds the event back when all four flags are set. A packet that arrives
  after \<open>stop\<close> has cancelled the timer arms it again, and the synthesized event is
  then emitted on a stopped Stream.
\<close>

lemma synthetic_event_after_stop:
  "st_stopped (cancel_done 0 (channel_emit_stream [''name'' \<mapsto> ''ether1'']
      (snd (stop False (RouterOSAPI_stream ''t1'' [''/x'', ''=interval=1''] True 0))))) \<and>
   st_log (elapse 1300 (cancel_done 0 (channel_emit_stream [''name'' \<mapsto> ''ether1'']
      (snd (stop False (RouterOSAPI_stream ''t1'' [''/x'', ''=interval=1''] True 0))))))
   = st_log (cancel_done 0 (channel_emit_stream [''name'' \<mapsto> ''ether1'']
      (snd (stop False (RouterOSAPI_stream ''t1'' [''/x'', ''=interval=1''] True 0)))))
     @ [Emit_data EmptyArray, Callback_data EmptyArray]"
proof -
  let ?s = "cancel_done 0 (channel_emit_stream [''name'' \<mapsto> ''ether1'']
      (snd (stop False (RouterOSAPI_stream ''t1'' [''/x'', ''=interval=1''] True 0))))"
  have a: "st_stopped ?s" "st_timers ?s = [(st_now ?s + 1300, DebounceCurrent)]"
    "st_debounce ?s = Some (Num 1300)" "\<not> st_stopping ?s" "st_callback ?s"
    by (simp_all add: RouterOSAPI_stream_def prepareDebounceEmptyData_def stream_defs
      out_def Let_def times1000_def plus300_def parseInt_def is_space_def digit_value_def
      channel_emit_stream_def stream_listener_def debounce_run_def onStream_def
      setTimeout_def section_of_def timeout_delay_def)
  have "elapse 1300 ?s = (?s\<lparr>st_now := st_now ?s + 1300,
           st_timers := [(st_now ?s + 1300 + timeout_delay (Num 1300), DebounceCurrent)],
           st_log := st_log ?s @ Emit_data EmptyArray #
              (if st_callback ?s then [Callback_data EmptyArray] else [])\<rparr>)"
    using a by (intro elapse_fires_debounce) simp_all
  with a show ?thesis by simp
qed

section \<open>Session: the response to the login challenge\<close>

text \<open>
  A JavaScript string is a sequence of 16-bit code units, and \<open>password.length\<close>
  counts them. \<open>challenge.write(string)\<close> writes the string's UTF-8 encoding: one to
  three bytes for a code unit, four for a surrogate pair, the replacement character
  for a lone surrogate; only characters that fit whole are written.
\<close>

type_synonym utf16 = "16 word list"

definition utf8_unit :: "16 word \<Rightarrow> byte list" where
  "utf8_unit c =
     (let n = unat c
      in if n < 0x80 then [word_of_nat n]
         else if n < 0x800 then [word_of_nat (0xC0 + n div 64), word_of_nat (0x80 + n mod 64)]
         else if 0xD800 \<le> n \<and> n < 0xE000 then [0xEF, 0xBF, 0xBD]
         else [word_of_nat (0xE0 + n div 4096), word_of_nat (0x80 + n div 64 mod 64),
               word_of_nat (0x80 + n mod 64)])"

definition utf8_pair :: "16 word \<Rightarrow> 16 word \<Rightarrow> byte list" where
  "utf8_pair hi lo =
     (let n = 0x10000 + (unat hi - 0xD800) * 1024 + (unat lo - 0xDC00)
      in [word_of_nat (0xF0 + n div 262144), word_of_nat (0x80 + n div 4096 mod 64),
          word_of_nat (0x80 + n div 64 mod 64), word_of_nat (0x80 + n mod 64)])"

fun utf8_chars :: "utf16 \<Rightarrow> byte list list" where
  "utf8_chars [] = []"
| "utf8_chars [c] = [utf8_unit c]"
| "utf8_chars (c # d # cs) =
     (if 0xD800 \<le> unat c \<and> unat c < 0xDC00 \<and> 0xDC00 \<le> unat d \<and> unat d < 0xE000
      then utf8_pair c d # utf8_chars cs
      else utf8_unit c # utf8_chars (d # cs))"

fun fitting :: "byte list list \<Rightarrow> nat \<Rightarrow> byte list" where
  "fitting [] n = []"
| "fitting (g # gs) n = (if length g \<le> n then g @ fitting gs (n - length g) else [])"

definition overwrite :: "buffer \<Rightarrow> nat \<Rightarrow> byte list \<Rightarrow> buffer" where
  "overwrite buf offset bytes = take offset buf @ bytes @ drop (offset + length bytes) buf"

definition Buffer_write_utf8 :: "buffer \<Rightarrow> utf16 \<Rightarrow> buffer" where
  "Buffer_write_utf8 buf str = overwrite buf 0 (fitting (utf8_chars str) (length buf))"

text \<open>
  \<open>challenge.write(ret, offset, length, 'hex')\<close> decodes pairs of hex digits up to the
  first pair that is not one, and writes at most \<open>length\<close> bytes of them at \<open>offset\<close>.
  Node throws (\<open>None\<close>) for an offset or a length beyond the buffer and for a length
  that is not an integer, as \<open>ret.length / 2\<close> is for a string of odd length.
\<close>

definition hex_digit :: "char \<Rightarrow> nat option" where
  "hex_digit c =
     (let n = of_char c :: nat
      in if 48 \<le> n \<and> n \<le> 57 then Some (n - 48)
         else if 97 \<le> n \<and> n \<le> 102 then Some (n - 87)
         else if 65 \<le> n \<and> n \<le> 70 then Some (n - 55)
         else None)"

fun hexDecode :: "string \<Rightarrow> byte list" where
  "hexDecode (a # b # cs) =
     (case (hex_digit a, hex_digit b) of
        (Some h, Some l) \<Rightarrow> word_of_nat (16 * h + l) # hexDecode cs
      | _ \<Rightarrow> [])"
| "hexDecode cs = []"

definition Buffer_write_hex :: "buffer \<Rightarrow> string \<Rightarrow> nat \<Rightarrow> nat \<Rightarrow> bool \<Rightarrow> buffer option" where
  "Buffer_write_hex buf str offset len len_is_integer =
     (if length buf < offset \<or> \<not> len_is_integer \<or> length buf < len then None
      else Some (overwrite buf offset
                   (take (min len (length buf - offset)) (hexDecode str))))"

text \<open>
  The second round of \<open>RouterOSAPI.login\<close>: the buffer that is hashed, and the
  response sent. The digest \<open>crypto.createHash('MD5').update(...).digest('hex')\<close> is
  the runtime's and is a parameter.
\<close>

definition login_challenge :: "utf16 \<Rightarrow> string \<Rightarrow> buffer option" where
  "login_challenge password ret =
     (let challenge = Buffer_alloc (length password + 17);
          challengeOffset = length password + 1;
          challenge = Buffer_write_utf8 challenge (0 # password)
      in Buffer_write_hex challenge ret challengeOffset (length ret div 2) (even (length ret)))"

definition login_response :: "(buffer \<Rightarrow> string) \<Rightarrow> utf16 \<Rightarrow> string \<Rightarrow> string option" where
  "login_response md5_hex password ret =
     (case login_challenge password ret of
        None \<Rightarrow> None
      | Some challenge \<Rightarrow> Some (''00'' @ md5_hex challenge))"

definition is_hex :: "string \<Rightarrow> bool" where
  "is_hex s = (\<forall>c \<in> set s. hex_digit c \<noteq> None)"

lemma hexDecode_length:
  "is_hex s \<Longrightarrow> even (length s) \<Longrightarrow> length (hexDecode s) = length s div 2"
  by (induction s rule: hexDecode.induct) (auto simp: is_hex_def)

lemma utf8_unit_ascii: "unat c < 0x80 \<Longrightarrow> utf8_unit c = [ucast c]"
  by (simp add: utf8_unit_def)

lemma utf8_chars_ascii:
  "\<forall>c \<in> set s. unat c < 0x80 \<Longrightarrow> utf8_chars s = map (\<lambda>c. [ucast c]) s"
proof (induction s rule: utf8_chars.induct)
  case 1
  then show ?case by simp
next
  case (2 c)
  then show ?case by (simp add: utf8_unit_ascii)
next
  case (3 c d cs)
  then have "\<not> (0xD800 \<le> unat c)" by simp
  with 3 show ?case by (simp add: utf8_unit_ascii)
qed

lemma fitting_singletons:
  "length s \<le> n \<Longrightarrow> fitting (map (\<lambda>c. [f c]) s) n = map f s"
  by (induction s arbitrary: n) auto

text \<open>
  For a password of ASCII characters and a challenge of 32 hex digits the hashed
  bytes are a zero byte, the password, and the sixteen decoded bytes of the challenge.
\<close>

lemma login_challenge_ascii:
  assumes a: "\<forall>c \<in> set password. unat c < 0x80" and h: "is_hex ret" and l: "length ret = 32"
  shows "login_challenge password ret = Some (0 # map ucast password @ hexDecode ret)"
proof -
  let ?n = "length password"
  let ?bytes = "(0 :: byte) # map ucast password"
  from a have "\<forall>c \<in> set (0 # password). unat c < 0x80" by simp
  then have "utf8_chars (0 # password) = map (\<lambda>c. [ucast c]) (0 # password)"
    by (rule utf8_chars_ascii)
  then have f: "fitting (utf8_chars (0 # password)) (?n + 17) = ?bytes"
    using fitting_singletons [of "0 # password" "?n + 17" ucast] by simp
  have w: "Buffer_write_utf8 (Buffer_alloc (?n + 17)) (0 # password) = ?bytes @ replicate 16 0"
    by (simp add: Buffer_write_utf8_def overwrite_def alloc_len f) (simp add: Buffer_alloc_def)
  from h l have d: "length (hexDecode ret) = 16"
    using hexDecode_length [of ret] by simp
  have "Buffer_write_hex (?bytes @ replicate 16 0) ret (?n + 1) (length ret div 2) (even (length ret))
      = Some (?bytes @ hexDecode ret)"
    by (simp add: Buffer_write_hex_def overwrite_def l d)
  with w show ?thesis by (simp add: login_challenge_def Let_def)
qed

lemma login_response_ascii:
  assumes "\<forall>c \<in> set password. unat c < 0x80" and "is_hex ret" and "length ret = 32"
  shows "login_response md5_hex password ret
           = Some (''00'' @ md5_hex (0 # map ucast password @ hexDecode ret))"
  using login_challenge_ascii [OF assms] by (simp add: login_response_def)

lemma login_challenge_ascii_witness:
  "login_challenge [0x61, 0x64, 0x6D, 0x69, 0x6E] ''00112233445566778899aabbccddeeff''
     = Some [0x00, 0x61, 0x64, 0x6D, 0x69, 0x6E, 0x00, 0x11, 0x22, 0x33, 0x44,
             0x55, 0x66, 0x77, 0x88, 0x99, 0xAA, 0xBB, 0xCC, 0xDD, 0xEE, 0xFF]"
proof -
  have a: "\<forall>c \<in> set [0x61, 0x64, 0x6D, 0x69, 0x6E :: 16 word]. unat c < 0x80" by simp
  have h: "is_hex ''00112233445566778899aabbccddeeff''"
    by (simp add: is_hex_def hex_digit_def)
  have l: "length ''00112233445566778899aabbccddeeff'' = 32" by simp
  from login_challenge_ascii [OF a h l] show ?thesis
    by (simp add: hex_digit_def)
qed

text \<open>
  Claim C3 says that for every password the response is \<open>00\<close> followed by the MD5 of
  a zero byte, the password's bytes and the decoded challenge. The buffer is
  allocated for one byte per code unit of the password, and the challenge is
  written at the offset \<open>password.length + 1\<close>. A password with a character outside
  ASCII has more UTF-8 bytes than code units, and the challenge overwrites the
  bytes beyond that offset: for the one-character password U+00E9, whose UTF-8
  bytes are C3 A9, the hashed bytes are 00 C3 and the challenge, eighteen bytes,
  and not the nineteen of the claim.
\<close>

theorem login_response_non_ascii_password:
  "login_response md5_hex [0xE9] ''00112233445566778899aabbccddeeff''
     = Some (''00'' @ md5_hex [0x00, 0xC3, 0x00, 0x11, 0x22, 0x33, 0x44, 0x55, 0x66, 0x77, 0x88,
                               0x99, 0xAA, 0xBB, 0xCC, 0xDD, 0xEE, 0xFF]) \<and>
   concat (utf8_chars [0xE9]) = [0xC3, 0xA9] \<and>
   [0x00, 0xC3, 0x00, 0x11, 0x22, 0x33, 0x44, 0x55, 0x66, 0x77, 0x88,
    0x99, 0xAA, 0xBB, 0xCC, 0xDD, 0xEE, 0xFF]
     \<noteq> 0 # concat (utf8_chars [0xE9]) @ hexDecode ''00112233445566778899aabbccddeeff''"
  by (simp add: login_response_def login_challenge_def Let_def Buffer_alloc_def
      Buffer_write_utf8_def Buffer_write_hex_def overwrite_def utf8_unit_def hex_digit_def)

section \<open>Session: connecting, closing and the Connectors\<close>

text \<open>
  A Session and every Connector it has constructed. Of a Connector the model keeps
  whether \<open>destroy()\<close> was called, its own flags, the listeners the Session has
  registered on it (\<open>endListener\<close> on \<open>error\<close> and on \<open>timeout\<close>, the \<open>close\<close> listener of
  \<open>connect\<close>, the \<open>connected\<close> listener that starts the login, \<open>connectedErrorListener\<close>
  on \<open>error\<close> and on \<open>timeout\<close>, the \<open>close\<close> listener of \<open>close()\<close>), all of them once-
  listeners, whether the promise of \<open>login()\<close> is pending, and whether its own
  once-listeners on the socket's \<open>timeout\<close> and \<open>end\<close> are still registered (a socket
  emits no \<open>fatal\<close>). \<open>api_connector\<close> is the index of \<open>this.connector\<close>.

  What happens to a Session: the calls \<open>connect\<close>, \<open>write\<close> and \<open>close\<close>; the socket
  events of a Connector, which its \<open>onConnect\<close>, \<open>onError\<close>, \<open>onTimeout\<close> and \<open>onEnd\<close>
  handle; and the settling of the login promise. A destroyed Connector's socket is
  destroyed and raises no event. Streams, channels and timers have no part in the
  construction or destruction of Connectors and are left out: \<open>write\<close> opens a
  Channel on the current Connector, and \<open>stopAllStreams\<close>, which \<open>endListener\<close> and
  \<open>close\<close> call before they change a flag, stops the Streams.

  The Session emits two events of its own while a handler runs: \<open>error\<close>, from
  \<open>connectedErrorListener\<close>, and \<open>close\<close>, from the \<open>close\<close> listener of \<open>connect\<close>. Their
  listeners are the caller's code, which may call back into the Session: a listener
  is the list of the calls it makes. An \<open>error\<close> event emitted where nobody listens
  throws, and so does the call of a method of \<open>this.connector\<close> when that is \<open>null\<close>.
  An exception leaves the handler at once, with the state as it is then. It is
  uncaught: the process ends, unless it handles uncaught exceptions, and then it goes
  on from that state. A run of the model goes on from that state.
\<close>

datatype session_call = ApiConnect | ApiWrite | ApiClose

record listeners =
  on_error :: "session_call list option"
  on_close :: "session_call list"

record connector =
  k_destroyed :: bool
  k_connected :: bool
  k_connecting :: bool
  k_closing :: bool
  on_error_end :: bool
  on_timeout_end :: bool
  on_close_connect :: bool
  on_connected_login :: bool
  on_error_connected :: bool
  on_timeout_connected :: bool
  on_close_close :: bool
  login_pending :: bool
  sock_timeout :: bool
  sock_end :: bool

record session =
  api_connected :: bool
  api_connecting :: bool
  api_closing :: bool
  api_connector :: "nat option"
  connectors :: "connector list"

datatype outcome = Returned session | Thrown session

definition state_of :: "outcome \<Rightarrow> session" where
  "state_of r = (case r of Returned this \<Rightarrow> this | Thrown this \<Rightarrow> this)"

datatype session_event =
    Call session_call
  | SocketConnect nat | SocketError nat | SocketTimeout nat | SocketEnd nat
  | LoginResolved nat | LoginRejected nat

definition RouterOSAPI_new :: session where
  "RouterOSAPI_new =
     \<lparr> api_connected = False, api_connecting = False, api_closing = False,
       api_connector = None, connectors = [] \<rparr>"

definition Connector_connecting :: connector where
  "Connector_connecting =
     \<lparr> k_destroyed = False, k_connected = False, k_connecting = True, k_closing = False,
       on_error_end = True, on_timeout_end = True, on_close_connect = True,
       on_connected_login = True, on_error_connected = False, on_timeout_connected = False,
       on_close_close = False, login_pending = False, sock_timeout = True, sock_end = True \<rparr>"

definition Connector_destroy :: "connector \<Rightarrow> connector" where
  "Connector_destroy k =
     k\<lparr> k_destroyed := True, on_error_end := False, on_timeout_end := False,
        on_close_connect := False, on_connected_login := False, on_error_connected := False,
        on_timeout_connected := False, on_close_close := False \<rparr>"

definition at :: "nat \<Rightarrow> (connector \<Rightarrow> connector) \<Rightarrow> session \<Rightarrow> session" where
  "at i f this =
     (if i < length (connectors this)
      then this\<lparr>connectors := (connectors this)[i := f (connectors this ! i)]\<rparr>
      else this)"

definition destroy_current :: "session \<Rightarrow> session" where
  "destroy_current this =
     (case api_connector this of None \<Rightarrow> this | Some j \<Rightarrow> at j Connector_destroy this)"

definition live :: "nat \<Rightarrow> session \<Rightarrow> bool" where
  "live i this \<longleftrightarrow> i < length (connectors this) \<and> \<not> k_destroyed (connectors this ! i)"

text \<open>\<open>RouterOSAPI.connect\<close>: the new Connector with its listeners, told to connect.\<close>

definition RouterOSAPI_connect_call :: "session \<Rightarrow> session" where
  "RouterOSAPI_connect_call this =
     (if api_connecting this then this
      else if api_connected this then this
      else this\<lparr> api_connecting := True, api_connected := False,
                 api_connector := Some (length (connectors this)),
                 connectors := connectors this @ [Connector_connecting] \<rparr>)"

text \<open>\<open>RouterOSAPI.close\<close> and \<open>Connector.close\<close>.\<close>

definition RouterOSAPI_close :: "session \<Rightarrow> session" where
  "RouterOSAPI_close this =
     (if api_closing this then this
      else if \<not> api_connected this then this
      else (case api_connector this of
              None \<Rightarrow> this\<lparr>api_closing := True\<rparr>
            | Some j \<Rightarrow>
                at j (\<lambda>k. k\<lparr>on_close_close := True, k_closing := True\<rparr>)
                  (this\<lparr>api_closing := True\<rparr>)))"

text \<open>
  A call of the Session, and the calls a listener makes. \<open>write\<close> constructs and
  destroys no Connector and changes none of the flags; it throws nothing, since the
  Channel writes inside the function of its promise, which is rejected instead.
\<close>

definition call :: "session_call \<Rightarrow> session \<Rightarrow> session" where
  "call c this =
     (case c of
        ApiConnect \<Rightarrow> RouterOSAPI_connect_call this
      | ApiWrite \<Rightarrow> this
      | ApiClose \<Rightarrow> RouterOSAPI_close this)"

definition listener_calls :: "session_call list \<Rightarrow> session \<Rightarrow> session" where
  "listener_calls cs this = foldl (\<lambda>s c. call c s) this cs"

text \<open>
  The listeners \<open>connect\<close> registers on its Connector. \<open>endListener\<close> clears the flags
  (and rejects the promise of \<open>connect\<close>, whose continuations run later).
  \<open>connectedErrorListener\<close> clears the flags and then emits the Session's \<open>error\<close>.
\<close>

definition endListener :: "session \<Rightarrow> session" where
  "endListener this = this\<lparr>api_connected := False, api_connecting := False\<rparr>"

definition connectedErrorListener :: "listeners \<Rightarrow> session \<Rightarrow> outcome" where
  "connectedErrorListener ls this0 =
     (let this = this0\<lparr>api_connected := False, api_connecting := False\<rparr>
      in case on_error ls of
           None \<Rightarrow> Thrown this
         | Some cs \<Rightarrow> Returned (listener_calls cs this))"

text \<open>
  The Connector's handlers of the socket's events. \<open>onError\<close>, \<open>onTimeout\<close> and \<open>onEnd\<close>
  emit the Connector's event and then call \<open>destroy()\<close>. The emit calls the listeners
  that are registered when it starts, in the order of registration, each removed
  before it is called; the Connector's \<open>error\<close> event throws when there is none.
\<close>

definition onConnect :: "nat \<Rightarrow> session \<Rightarrow> session" where
  "onConnect i this =
     (let k = connectors this ! i;
          this = at i (\<lambda>k. k\<lparr>k_connecting := False, k_connected := True\<rparr>) this
      in if on_connected_login k
         then at i (\<lambda>k. k\<lparr>on_connected_login := False, login_pending := True\<rparr>)
                (this\<lparr>api_connecting := True\<rparr>)
         else this)"

definition Connector_emit_error :: "listeners \<Rightarrow> nat \<Rightarrow> session \<Rightarrow> outcome" where
  "Connector_emit_error ls i this0 =
     (let k = connectors this0 ! i
      in if \<not> on_error_end k \<and> \<not> on_error_connected k then Thrown this0
         else
           (let this = (if on_error_end k
                        then endListener (at i (\<lambda>k. k\<lparr>on_error_end := False\<rparr>) this0)
                        else this0)
            in if on_error_connected k
               then connectedErrorListener ls
                      (at i (\<lambda>k. k\<lparr>on_error_connected := False\<rparr>) this)
               else Returned this))"

definition onError :: "listeners \<Rightarrow> nat \<Rightarrow> session \<Rightarrow> outcome" where
  "onError ls i this =
     (case Connector_emit_error ls i this of
        Thrown this' \<Rightarrow> Thrown this'
      | Returned this' \<Rightarrow> Returned (at i Connector_destroy this'))"

definition Connector_emit_timeout :: "listeners \<Rightarrow> nat \<Rightarrow> session \<Rightarrow> outcome" where
  "Connector_emit_timeout ls i this0 =
     (let k = connectors this0 ! i;
          this = (if on_timeout_end k
                  then endListener (at i (\<lambda>k. k\<lparr>on_timeout_end := False\<rparr>) this0)
                  else this0)
      in if on_timeout_connected k
         then connectedErrorListener ls
                (at i (\<lambda>k. k\<lparr>on_timeout_connected := False\<rparr>) this)
         else Returned this)"

definition onTimeout :: "listeners \<Rightarrow> nat \<Rightarrow> session \<Rightarrow> outcome" where
  "onTimeout ls i this =
     (case Connector_emit_timeout ls i this of
        Thrown this' \<Rightarrow> Thrown this'
      | Returned this' \<Rightarrow> Returned (at i Connector_destroy this'))"

text \<open>
  The \<open>close\<close> listener of \<open>connect\<close> emits the Session's \<open>close\<close> and then runs
  \<open>endListener\<close>; the \<open>close\<close> listener of \<open>close()\<close> destroys \<open>this.connector\<close>.
\<close>

definition Connector_emit_close :: "listeners \<Rightarrow> nat \<Rightarrow> session \<Rightarrow> outcome" where
  "Connector_emit_close ls i this0 =
     (let k = connectors this0 ! i;
          this = (if on_close_connect k
                  then endListener
                         (listener_calls (on_close ls)
                            (at i (\<lambda>k. k\<lparr>on_close_connect := False\<rparr>) this0))
                  else this0)
      in if on_close_close k
         then (let this = at i (\<lambda>k. k\<lparr>on_close_close := False\<rparr>) this
               in case api_connector this of
                    None \<Rightarrow> Thrown this
                  | Some j \<Rightarrow>
                      Returned ((at j Connector_destroy this)
                         \<lparr>api_connector := None, api_closing := False, api_connected := False\<rparr>))
         else Returned this)"

definition onEnd :: "listeners \<Rightarrow> nat \<Rightarrow> session \<Rightarrow> outcome" where
  "onEnd ls i this =
     (case Connector_emit_close ls i this of
        Thrown this' \<Rightarrow> Thrown this'
      | Returned this' \<Rightarrow> Returned (at i Connector_destroy this'))"

text \<open>
  The two functions \<open>connect\<close> chains to the login promise of its Connector \<open>i\<close>. The
  first works on \<open>this.connector\<close>: it removes the \<open>endListener\<close> of its own call of
  \<open>connect\<close>, which is registered on the Connector \<open>i\<close> and on no other, and registers
  \<open>connectedErrorListener\<close>; when \<open>this.connector\<close> is \<open>null\<close> the exception takes it to
  the second. \<open>login\<close> itself destroys the current Connector before it rejects.
\<close>

definition login_resolved :: "nat \<Rightarrow> session \<Rightarrow> session" where
  "login_resolved i this0 =
     (let this = at i (\<lambda>k. k\<lparr>login_pending := False\<rparr>) this0;
          this = this\<lparr>api_connecting := False, api_connected := True\<rparr>
      in case api_connector this of
           None \<Rightarrow> this\<lparr>api_connecting := False, api_connected := False\<rparr>
         | Some j \<Rightarrow>
             at j (\<lambda>k. k\<lparr>on_error_end := (j \<noteq> i \<and> on_error_end k),
                          on_timeout_end := (j \<noteq> i \<and> on_timeout_end k),
                          on_error_connected := True, on_timeout_connected := True\<rparr>) this)"

definition login_rejected :: "nat \<Rightarrow> session \<Rightarrow> session" where
  "login_rejected i this0 =
     (let this = at i (\<lambda>k. k\<lparr>login_pending := False\<rparr>) this0;
          this = destroy_current this
      in this\<lparr>api_connecting := False, api_connected := False\<rparr>)"

definition session_step :: "listeners \<Rightarrow> session_event \<Rightarrow> session \<Rightarrow> outcome" where
  "session_step ls ev this =
     (case ev of
        Call c \<Rightarrow> Returned (call c this)
      | SocketConnect i \<Rightarrow>
          if live i this \<and> k_connecting (connectors this ! i) then Returned (onConnect i this)
          else Returned this
      | SocketError i \<Rightarrow> if live i this then onError ls i this else Returned this
      | SocketTimeout i \<Rightarrow>
          if live i this \<and> sock_timeout (connectors this ! i)
          then onTimeout ls i (at i (\<lambda>k. k\<lparr>sock_timeout := False\<rparr>) this)
          else Returned this
      | SocketEnd i \<Rightarrow>
          if live i this \<and> sock_end (connectors this ! i)
          then onEnd ls i (at i (\<lambda>k. k\<lparr>sock_end := False\<rparr>) this)
          else Returned this
      | LoginResolved i \<Rightarrow>
          if live i this \<and> login_pending (connectors this ! i)
          then Returned (login_resolved i this) else Returned this
      | LoginRejected i \<Rightarrow>
          if live i this \<and> login_pending (connectors this ! i)
          then Returned (login_rejected i this) else Returned this)"

definition session_run :: "listeners \<Rightarrow> session_event list \<Rightarrow> session \<Rightarrow> session" where
  "session_run ls evs this = foldl (\<lambda>s ev. state_of (session_step ls ev s)) this evs"

text \<open>
  The invariant between handlers: a Connector that is not destroyed is the Session's
  current one, and the Session is then connected or connecting. While the listener
  of the Session's \<open>error\<close> runs, the Connector \<open>i\<close> that failed is not destroyed yet
  and the Session is not connected: \<open>replacing i\<close> says that every other Connector
  that is not destroyed is the current one, of a Session that is connecting.
\<close>

definition one_connection :: "session \<Rightarrow> bool" where
  "one_connection this \<longleftrightarrow>
     (\<forall>i. live i this \<longrightarrow>
        api_connector this = Some i \<and> (api_connected this \<or> api_connecting this))"

definition replacing :: "nat \<Rightarrow> session \<Rightarrow> bool" where
  "replacing i this \<longleftrightarrow>
     i < length (connectors this) \<and> \<not> api_connected this \<and>
     (\<forall>j. live j this \<and> j \<noteq> i \<longrightarrow> api_connector this = Some j \<and> api_connecting this)"

lemma live_unique: "one_connection s \<Longrightarrow> live i s \<Longrightarrow> live j s \<Longrightarrow> i = j"
  by (metis one_connection_def option.inject)

lemma at_fields [simp]:
  "api_connected (at i f s) = api_connected s"
  "api_connecting (at i f s) = api_connecting s"
  "api_closing (at i f s) = api_closing s"
  "api_connector (at i f s) = api_connector s"
  "length (connectors (at i f s)) = length (connectors s)"
  by (simp_all add: at_def)

lemma live_at:
  "live j (at i f s) \<longleftrightarrow>
     (if j = i then i < length (connectors s) \<and> \<not> k_destroyed (f (connectors s ! i))
      else live j s)"
  by (auto simp: live_def at_def)

lemma live_at_destroy: "live j (at i Connector_destroy s) \<longleftrightarrow> live j s \<and> j \<noteq> i"
  by (simp add: live_at) (auto simp: live_def Connector_destroy_def)

lemma live_at_keep:
  "(\<And>k. k_destroyed (f k) = k_destroyed k) \<Longrightarrow> live j (at i f s) = live j s"
  by (simp add: live_at) (auto simp: live_def)

lemma live_fields [simp]:
  "live j (s\<lparr>api_connected := a\<rparr>) = live j s"
  "live j (s\<lparr>api_connecting := b\<rparr>) = live j s"
  "live j (s\<lparr>api_closing := c\<rparr>) = live j s"
  "live j (s\<lparr>api_connector := d\<rparr>) = live j s"
  by (simp_all add: live_def)

lemma one_connection_new: "one_connection RouterOSAPI_new"
  by (simp add: one_connection_def RouterOSAPI_new_def live_def)

lemma one_connection_no_live: "(\<And>j. \<not> live j s) \<Longrightarrow> one_connection s"
  unfolding one_connection_def by blast

lemma one_connection_at_keep:
  "(\<And>k. k_destroyed (f k) = k_destroyed k) \<Longrightarrow> one_connection s \<Longrightarrow> one_connection (at i f s)"
  by (simp add: one_connection_def live_at_keep)

lemma connect_call_live:
  "live j (RouterOSAPI_connect_call s) \<longleftrightarrow>
     live j s \<or> (\<not> api_connecting s \<and> \<not> api_connected s \<and> j = length (connectors s))"
  by (auto simp: RouterOSAPI_connect_call_def live_def nth_append Connector_connecting_def)

lemma close_live: "live j (RouterOSAPI_close s) = live j s"
  by (simp add: RouterOSAPI_close_def live_at_keep split: option.splits)

lemma step_connect: "one_connection s \<Longrightarrow> one_connection (RouterOSAPI_connect_call s)"
proof -
  assume o: "one_connection s"
  show ?thesis
  proof (cases "api_connecting s \<or> api_connected s")
    case True
    with o show ?thesis by (auto simp: RouterOSAPI_connect_call_def)
  next
    case False
    with o have none: "\<not> live j s" for j by (auto simp: one_connection_def)
    have "live j (RouterOSAPI_connect_call s) \<Longrightarrow> j = length (connectors s)" for j
      using none [of j] by (simp add: connect_call_live)
    with False show ?thesis
      by (auto simp: one_connection_def RouterOSAPI_connect_call_def)
  qed
qed

lemma step_close: "one_connection s \<Longrightarrow> one_connection (RouterOSAPI_close s)"
  by (auto simp: one_connection_def RouterOSAPI_close_def live_at_keep split: option.splits)

lemma call_one_connection: "one_connection s \<Longrightarrow> one_connection (call c s)"
  by (cases c) (simp_all add: call_def step_connect step_close)

lemma call_live: "live i s \<Longrightarrow> live i (call c s)"
  by (cases c) (simp_all add: call_def connect_call_live close_live)

lemma calls_one_connection:
  "one_connection s \<Longrightarrow> live i s \<Longrightarrow>
   one_connection (listener_calls cs s) \<and> live i (listener_calls cs s)"
  unfolding listener_calls_def
  by (induction cs arbitrary: s) (simp_all add: call_one_connection call_live)

lemma call_replacing: "replacing i s \<Longrightarrow> replacing i (call c s)"
proof (cases c)
  case ApiConnect
  assume r: "replacing i s"
  show ?thesis
  proof (cases "api_connecting s")
    case True
    with r ApiConnect show ?thesis by (simp add: call_def RouterOSAPI_connect_call_def)
  next
    case False
    with r have n: "\<not> live j s \<or> j = i" for j by (auto simp: replacing_def)
    from r have c: "\<not> api_connected s" and l: "i < length (connectors s)"
      by (simp_all add: replacing_def)
    have f: "api_connector (RouterOSAPI_connect_call s) = Some (length (connectors s))"
      "api_connecting (RouterOSAPI_connect_call s)" "\<not> api_connected (RouterOSAPI_connect_call s)"
      "length (connectors (RouterOSAPI_connect_call s)) = Suc (length (connectors s))"
      using False c by (simp_all add: RouterOSAPI_connect_call_def)
    have "j = length (connectors s)" if "live j (RouterOSAPI_connect_call s)" "j \<noteq> i" for j
      using that n [of j] by (auto simp: connect_call_live)
    with f l ApiConnect show ?thesis by (auto simp: replacing_def call_def)
  qed
next
  case ApiWrite
  assume "replacing i s"
  with ApiWrite show ?thesis by (simp add: call_def)
next
  case ApiClose
  assume "replacing i s"
  with ApiClose show ?thesis by (simp add: call_def RouterOSAPI_close_def replacing_def)
qed

lemma calls_replacing: "replacing i s \<Longrightarrow> replacing i (listener_calls cs s)"
  unfolding listener_calls_def
  by (induction cs arbitrary: s) (simp_all add: call_replacing)

lemma destroy_replacing: "replacing i s \<Longrightarrow> one_connection (at i Connector_destroy s)"
  by (auto simp: one_connection_def replacing_def live_at_destroy)

text \<open>A state in which only the Connector \<open>i\<close> may be left undestroyed.\<close>

lemma replacing_only:
  assumes "\<And>j. live j t \<Longrightarrow> j = i" and "i < length (connectors t)" and "\<not> api_connected t"
  shows "replacing i t"
  using assms by (auto simp: replacing_def)

lemma no_live_after_destroy:
  assumes "\<And>j. live j t \<Longrightarrow> j = i"
  shows "one_connection (at i Connector_destroy t)"
  using assms by (intro one_connection_no_live) (auto simp: live_at_destroy)

lemma connectedErrorListener_replacing:
  assumes "\<And>j. live j t \<Longrightarrow> j = i" and "i < length (connectors t)"
    and "connectedErrorListener ls t = Returned t'"
  shows "replacing i t'"
proof -
  let ?t = "t\<lparr>api_connected := False, api_connecting := False\<rparr>"
  have "replacing i ?t"
    using assms(1,2) by (intro replacing_only) simp_all
  moreover from assms(3) obtain cs where "t' = listener_calls cs ?t"
    by (auto simp: connectedErrorListener_def Let_def split: option.splits)
  ultimately show ?thesis by (simp add: calls_replacing)
qed

lemma connectedErrorListener_returns:
  "on_error ls \<noteq> None \<Longrightarrow> \<exists>t'. connectedErrorListener ls t = Returned t'"
  by (auto simp: connectedErrorListener_def Let_def split: option.splits)

lemma emit_error_replacing:
  assumes o: "one_connection s" and l: "live i s" and b: "live j t" "j \<noteq> i"
    and t: "t = state_of (Connector_emit_error ls i s)"
  shows "api_connector t = Some j \<and> api_connecting t"
proof -
  let ?k = "connectors s ! i"
  from l have len: "i < length (connectors s)" by (simp add: live_def)
  let ?t = "if on_error_end ?k
            then endListener (at i (\<lambda>k. k\<lparr>on_error_end := False\<rparr>) s) else s"
  have lt: "live m ?t = live m s" for m
    by (simp add: endListener_def live_at_keep)
  have only: "m = i" if "live m ?t" for m
    using that o l live_unique lt by blast
  let ?u = "at i (\<lambda>k. k\<lparr>on_error_connected := False\<rparr>) ?t"
  have lu: "live m ?u = live m s" for m
    using lt [of m] by (simp add: live_at_keep)
  have only_u: "m = i" if "live m ?u" for m
    using that o l live_unique lu by blast
  have len_u: "i < length (connectors ?u)"
    using len by (simp add: endListener_def)
  show ?thesis
  proof (cases "\<not> on_error_end ?k \<and> \<not> on_error_connected ?k")
    case True
    then have "t = s"
      unfolding t by (simp add: Connector_emit_error_def Let_def state_of_def)
    with b o l show ?thesis using live_unique by blast
  next
    case False
    show ?thesis
    proof (cases "on_error_connected ?k")
      case no: False
      with False have "t = ?t"
        unfolding t by (simp add: Connector_emit_error_def Let_def state_of_def)
      with b only show ?thesis by blast
    next
      case True
      then have e: "t = state_of (connectedErrorListener ls ?u)"
        unfolding t by (simp add: Connector_emit_error_def Let_def)
      show ?thesis
      proof (cases "on_error ls")
        case None
        with e have "t = ?u\<lparr>api_connected := False, api_connecting := False\<rparr>"
          by (simp add: connectedErrorListener_def Let_def state_of_def)
        with b only_u show ?thesis by auto
      next
        case (Some cs)
        then obtain t' where r: "connectedErrorListener ls ?u = Returned t'"
          by (simp add: connectedErrorListener_def Let_def)
        with e have "t = t'" by (simp add: state_of_def)
        with connectedErrorListener_replacing [OF only_u len_u r] b
        show ?thesis by (auto simp: replacing_def)
      qed
    qed
  qed
qed

lemma step_onError:
  assumes o: "one_connection s" and l: "live i s" and e: "on_error ls \<noteq> None"
  shows "one_connection (state_of (onError ls i s))"
proof -
  let ?k = "connectors s ! i"
  from l have len: "i < length (connectors s)" by (simp add: live_def)
  let ?t = "if on_error_end ?k
            then endListener (at i (\<lambda>k. k\<lparr>on_error_end := False\<rparr>) s) else s"
  have lt: "live j ?t = live j s" for j
    by (simp add: endListener_def live_at_keep)
  have only: "j = i" if "live j ?t" for j
    using that o l live_unique lt by blast
  show ?thesis
  proof (cases "\<not> on_error_end ?k \<and> \<not> on_error_connected ?k")
    case True
    then have "onError ls i s = Thrown s"
      by (simp add: onError_def Connector_emit_error_def Let_def)
    with o show ?thesis by (simp add: state_of_def)
  next
    case False
    show ?thesis
    proof (cases "on_error_connected ?k")
      case True
      let ?u = "at i (\<lambda>k. k\<lparr>on_error_connected := False\<rparr>) ?t"
      have lu: "live j ?u = live j s" for j
        using lt [of j] by (simp add: live_at_keep)
      have only_u: "j = i" if "live j ?u" for j
        using that o l live_unique lu by blast
      have len_u: "i < length (connectors ?u)"
        using len by (simp add: endListener_def)
      from connectedErrorListener_returns [OF e] obtain t'
        where r: "connectedErrorListener ls ?u = Returned t'" by blast
      from connectedErrorListener_replacing [OF only_u len_u r] have "replacing i t'" .
      then have "one_connection (at i Connector_destroy t')" by (rule destroy_replacing)
      moreover have "onError ls i s = Returned (at i Connector_destroy t')"
        using True r by (simp add: onError_def Connector_emit_error_def Let_def)
      ultimately show ?thesis by (simp add: state_of_def)
    next
      case no: False
      with False have "onError ls i s = Returned (at i Connector_destroy ?t)"
        by (simp add: onError_def Connector_emit_error_def Let_def)
      moreover have "one_connection (at i Connector_destroy ?t)"
        using only by (rule no_live_after_destroy)
      ultimately show ?thesis by (simp add: state_of_def)
    qed
  qed
qed

lemma emit_timeout_replacing:
  assumes o: "one_connection s" and l: "live i s" and b: "live j t" "j \<noteq> i"
    and t: "t = state_of (Connector_emit_timeout ls i s)"
  shows "api_connector t = Some j \<and> api_connecting t"
proof -
  let ?k = "connectors s ! i"
  from l have len: "i < length (connectors s)" by (simp add: live_def)
  let ?t = "if on_timeout_end ?k
            then endListener (at i (\<lambda>k. k\<lparr>on_timeout_end := False\<rparr>) s) else s"
  have lt: "live m ?t = live m s" for m
    by (simp add: endListener_def live_at_keep)
  have only: "m = i" if "live m ?t" for m
    using that o l live_unique lt by blast
  let ?u = "at i (\<lambda>k. k\<lparr>on_timeout_connected := False\<rparr>) ?t"
  have lu: "live m ?u = live m s" for m
    using lt [of m] by (simp add: live_at_keep)
  have only_u: "m = i" if "live m ?u" for m
    using that o l live_unique lu by blast
  have len_u: "i < length (connectors ?u)"
    using len by (simp add: endListener_def)
  show ?thesis
  proof (cases "on_timeout_connected ?k")
    case False
    then have "t = ?t"
      unfolding t by (simp add: Connector_emit_timeout_def Let_def state_of_def)
    with b only show ?thesis by blast
  next
    case True
    then have e: "t = state_of (connectedErrorListener ls ?u)"
      unfolding t by (simp add: Connector_emit_timeout_def Let_def)
    show ?thesis
    proof (cases "on_error ls")
      case None
      with e have "t = ?u\<lparr>api_connected := False, api_connecting := False\<rparr>"
        by (simp add: connectedErrorListener_def Let_def state_of_def)
      with b only_u show ?thesis by auto
    next
      case (Some cs)
      then obtain t' where r: "connectedErrorListener ls ?u = Returned t'"
        by (simp add: connectedErrorListener_def Let_def)
      with e have "t = t'" by (simp add: state_of_def)
      with connectedErrorListener_replacing [OF only_u len_u r] b
      show ?thesis by (auto simp: replacing_def)
    qed
  qed
qed

lemma step_onTimeout:
  assumes o: "one_connection s" and l: "live i s" and e: "on_error ls \<noteq> None"
  shows "one_connection (state_of (onTimeout ls i s))"
proof -
  let ?k = "connectors s ! i"
  from l have len: "i < length (connectors s)" by (simp add: live_def)
  let ?t = "if on_timeout_end ?k
            then endListener (at i (\<lambda>k. k\<lparr>on_timeout_end := False\<rparr>) s) else s"
  have lt: "live j ?t = live j s" for j
    by (simp add: endListener_def live_at_keep)
  have only: "j = i" if "live j ?t" for j
    using that o l live_unique lt by blast
  show ?thesis
  proof (cases "on_timeout_connected ?k")
    case True
    let ?u = "at i (\<lambda>k. k\<lparr>on_timeout_connected := False\<rparr>) ?t"
    have lu: "live j ?u = live j s" for j
      using lt [of j] by (simp add: live_at_keep)
    have only_u: "j = i" if "live j ?u" for j
      using that o l live_unique lu by blast
    have len_u: "i < length (connectors ?u)"
      using len by (simp add: endListener_def)
    from connectedErrorListener_returns [OF e] obtain t'
      where r: "connectedErrorListener ls ?u = Returned t'" by blast
    from connectedErrorListener_replacing [OF only_u len_u r] have "replacing i t'" .
    then have "one_connection (at i Connector_destroy t')" by (rule destroy_replacing)
    moreover have "onTimeout ls i s = Returned (at i Connector_destroy t')"
      using True r by (simp add: onTimeout_def Connector_emit_timeout_def Let_def)
    ultimately show ?thesis by (simp add: state_of_def)
  next
    case False
    then have "onTimeout ls i s = Returned (at i Connector_destroy ?t)"
      by (simp add: onTimeout_def Connector_emit_timeout_def Let_def)
    moreover have "one_connection (at i Connector_destroy ?t)"
      using only by (rule no_live_after_destroy)
    ultimately show ?thesis by (simp add: state_of_def)
  qed
qed

lemma step_onEnd:
  assumes o: "one_connection s" and l: "live i s"
  shows "one_connection (state_of (onEnd ls i s))"
proof -
  let ?k = "connectors s ! i"
  let ?s1 = "at i (\<lambda>k. k\<lparr>on_close_connect := False\<rparr>) s"
  let ?t = "if on_close_connect ?k then endListener (listener_calls (on_close ls) ?s1) else s"
  have o1: "one_connection ?s1" using o by (intro one_connection_at_keep) simp_all
  have l1: "live i ?s1" using l by (simp add: live_at_keep)
  note c = calls_one_connection [OF o1 l1, of "on_close ls"]
  have only: "j = i" if "live j ?t" for j
  proof (cases "on_close_connect ?k")
    case True
    with that have "live j (listener_calls (on_close ls) ?s1)" by (simp add: endListener_def)
    with c show ?thesis using live_unique by blast
  next
    case False
    with that o l show ?thesis using live_unique by auto
  qed
  have cur: "api_connector ?t = Some i"
  proof (cases "on_close_connect ?k")
    case True
    from c have "api_connector (listener_calls (on_close ls) ?s1) = Some i"
      by (simp add: one_connection_def)
    with True show ?thesis by (simp add: endListener_def)
  next
    case False
    with o l show ?thesis by (simp add: one_connection_def)
  qed
  show ?thesis
  proof (cases "on_close_close ?k")
    case True
    let ?u = "at i (\<lambda>k. k\<lparr>on_close_close := False\<rparr>) ?t"
    let ?v = "(at i Connector_destroy ?u)
                \<lparr>api_connector := None, api_closing := False, api_connected := False\<rparr>"
    have "Connector_emit_close ls i s = Returned ?v"
      using True cur by (simp add: Connector_emit_close_def Let_def)
    then have r: "onEnd ls i s = Returned (at i Connector_destroy ?v)"
      by (simp add: onEnd_def)
    have "j = i" if "live j ?v" for j
    proof -
      from that have "live j ?u" by (simp add: live_at_destroy)
      then have "live j ?t" by (simp add: live_at_keep)
      then show ?thesis by (rule only)
    qed
    then have "one_connection (at i Connector_destroy ?v)" by (rule no_live_after_destroy)
    with r show ?thesis by (simp add: state_of_def)
  next
    case False
    then have "onEnd ls i s = Returned (at i Connector_destroy ?t)"
      by (simp add: onEnd_def Connector_emit_close_def Let_def)
    moreover have "one_connection (at i Connector_destroy ?t)"
      using only by (rule no_live_after_destroy)
    ultimately show ?thesis by (simp add: state_of_def)
  qed
qed

lemma step_onConnect: "one_connection s \<Longrightarrow> live i s \<Longrightarrow> one_connection (onConnect i s)"
  by (auto simp: one_connection_def onConnect_def live_at_keep Let_def)

lemma step_login_resolved:
  assumes o: "one_connection s" and l: "live i s"
  shows "one_connection (login_resolved i s)"
proof -
  from o l have c: "api_connector s = Some i" by (simp add: one_connection_def)
  have "live m (login_resolved i s) \<Longrightarrow> live m s" for m
    using c by (simp add: login_resolved_def Let_def live_at_keep)
  moreover have "api_connector (login_resolved i s) = api_connector s"
    "api_connected (login_resolved i s)"
    using c by (simp_all add: login_resolved_def Let_def)
  ultimately show ?thesis using o unfolding one_connection_def by metis
qed

lemma step_login_rejected:
  assumes o: "one_connection s" and l: "live i s"
  shows "one_connection (login_rejected i s)"
proof -
  from o l have c: "api_connector s = Some i" by (simp add: one_connection_def)
  have "\<not> live m (login_rejected i s)" for m
  proof
    assume a: "live m (login_rejected i s)"
    have "live m s \<and> m \<noteq> i"
      using a c
      by (auto simp: login_rejected_def Let_def destroy_current_def live_at_destroy live_at_keep)
    with o l show False using live_unique by blast
  qed
  then show ?thesis by (rule one_connection_no_live)
qed

lemma step_one_connection:
  assumes o: "one_connection s" and e: "on_error ls \<noteq> None"
  shows "one_connection (state_of (session_step ls ev s))"
proof (cases ev)
  case (Call c)
  with o show ?thesis by (simp add: session_step_def state_of_def call_one_connection)
next
  case (SocketConnect i)
  with o show ?thesis by (simp add: session_step_def state_of_def step_onConnect)
next
  case (SocketError i)
  with o e show ?thesis by (simp add: session_step_def step_onError) (simp add: state_of_def)
next
  case (SocketTimeout i)
  show ?thesis
  proof (cases "live i s \<and> sock_timeout (connectors s ! i)")
    case True
    let ?s = "at i (\<lambda>k. k\<lparr>sock_timeout := False\<rparr>) s"
    have "one_connection ?s" using o by (intro one_connection_at_keep) simp_all
    moreover have "live i ?s" using True by (simp add: live_at_keep)
    ultimately have "one_connection (state_of (onTimeout ls i ?s))"
      using e by (rule step_onTimeout)
    with True SocketTimeout show ?thesis by (simp add: session_step_def)
  next
    case False
    with o SocketTimeout show ?thesis by (auto simp: session_step_def state_of_def)
  qed
next
  case (SocketEnd i)
  show ?thesis
  proof (cases "live i s \<and> sock_end (connectors s ! i)")
    case True
    let ?s = "at i (\<lambda>k. k\<lparr>sock_end := False\<rparr>) s"
    have "one_connection ?s" using o by (intro one_connection_at_keep) simp_all
    moreover have "live i ?s" using True by (simp add: live_at_keep)
    ultimately have "one_connection (state_of (onEnd ls i ?s))"
      by (rule step_onEnd)
    with True SocketEnd show ?thesis by (simp add: session_step_def)
  next
    case False
    with o SocketEnd show ?thesis by (auto simp: session_step_def state_of_def)
  qed
next
  case (LoginResolved i)
  with o show ?thesis by (simp add: session_step_def state_of_def step_login_resolved)
next
  case (LoginRejected i)
  with o show ?thesis by (simp add: session_step_def state_of_def step_login_rejected)
qed

lemma run_one_connection:
  "one_connection s \<Longrightarrow> on_error ls \<noteq> None \<Longrightarrow> one_connection (session_run ls evs s)"
  unfolding session_run_def
  by (induction evs arbitrary: s) (simp_all add: step_one_connection)

lemma count_live:
  "(\<And>i j. i < length ks \<Longrightarrow> j < length ks \<Longrightarrow> \<not> k_destroyed (ks ! i) \<Longrightarrow>
      \<not> k_destroyed (ks ! j) \<Longrightarrow> i = j)
   \<Longrightarrow> length (filter (\<lambda>k. \<not> k_destroyed k) ks) \<le> 1"
proof (induction ks)
  case Nil
  then show ?case by simp
next
  case (Cons k ks)
  have rest: "length (filter (\<lambda>k. \<not> k_destroyed k) ks) \<le> 1"
  proof (rule Cons.IH)
    fix i j
    assume "i < length ks" "j < length ks" "\<not> k_destroyed (ks ! i)" "\<not> k_destroyed (ks ! j)"
    then have "Suc i = Suc j" using Cons.prems [of "Suc i" "Suc j"] by simp
    then show "i = j" by simp
  qed
  show ?case
  proof (cases "k_destroyed k")
    case True
    with rest show ?thesis by simp
  next
    case False
    have "k_destroyed x" if "x \<in> set ks" for x
    proof (rule ccontr)
      assume n: "\<not> k_destroyed x"
      from that obtain i where "i < length ks" "ks ! i = x" by (auto simp: in_set_conv_nth)
      with n False have "0 = Suc i" using Cons.prems [of 0 "Suc i"] by simp
      then show False by simp
    qed
    then have "filter (\<lambda>k. \<not> k_destroyed k) ks = []" by (simp add: filter_empty_conv)
    with False show ?thesis by simp
  qed
qed

lemma one_connection_count:
  assumes "one_connection s"
  shows "length (filter (\<lambda>k. \<not> k_destroyed k) (connectors s)) \<le> 1"
proof (rule count_live)
  fix i j
  assume "i < length (connectors s)" "j < length (connectors s)"
    "\<not> k_destroyed (connectors s ! i)" "\<not> k_destroyed (connectors s ! j)"
  then have "live i s" "live j s" by (simp_all add: live_def)
  with assms show "i = j" by (rule live_unique)
qed

text \<open>
  Claim C7, as amended. Somebody listens to the Session's \<open>error\<close> event. Then in
  every state the Session is in between two handlers, after any sequence of
  \<open>connect\<close>, \<open>write\<close> and \<open>close\<close> calls, socket events and login outcomes, whatever
  calls the listeners of the Session's \<open>error\<close> and \<open>close\<close> events make while they
  run, at most one Connector is not destroyed. And whenever \<open>connect\<close> called in such
  a state constructs a Connector, the Session is neither connected nor connecting and
  every Connector constructed before is destroyed. When a Connector \<open>i\<close> fails in such
  a state, with an error or a timeout, then after its event has been emitted (and the
  listener of the Session's \<open>error\<close> has run), before its \<open>destroy()\<close>, every other
  Connector that is not destroyed is the current one, of a Session that is
  connecting: the one that a \<open>connect\<close> in the listener has constructed.
\<close>

theorem one_live_connector_between_handlers:
  fixes ls :: listeners and evs :: "session_event list" and i j j' :: nat
  defines "s \<equiv> session_run ls evs RouterOSAPI_new"
  defines "t \<equiv> state_of (Connector_emit_error ls i (session_run ls evs RouterOSAPI_new))"
  defines "u \<equiv> state_of (Connector_emit_timeout ls i (session_run ls evs RouterOSAPI_new))"
  assumes "on_error ls \<noteq> None"
  shows "length (filter (\<lambda>k. \<not> k_destroyed k) (connectors s)) \<le> 1 \<and>
         (length (connectors (RouterOSAPI_connect_call s)) > length (connectors s) \<longrightarrow>
            \<not> api_connected s \<and> \<not> api_connecting s \<and>
            (\<forall>k \<in> set (connectors s). k_destroyed k)) \<and>
         (live i s \<and> live j t \<and> j \<noteq> i \<longrightarrow> api_connector t = Some j \<and> api_connecting t) \<and>
         (live i s \<and> live j' u \<and> j' \<noteq> i \<longrightarrow> api_connector u = Some j' \<and> api_connecting u)"
proof -
  have o: "one_connection s"
    unfolding s_def using one_connection_new assms(4) by (rule run_one_connection)
  have "\<forall>k \<in> set (connectors s). k_destroyed k" if "\<not> api_connected s" "\<not> api_connecting s"
  proof
    fix k assume "k \<in> set (connectors s)"
    then obtain i where "i < length (connectors s)" "connectors s ! i = k"
      by (auto simp: in_set_conv_nth)
    with o that show "k_destroyed k" by (auto simp: one_connection_def live_def)
  qed
  moreover have "length (connectors (RouterOSAPI_connect_call s)) > length (connectors s)
      \<Longrightarrow> \<not> api_connected s \<and> \<not> api_connecting s"
    by (auto simp: RouterOSAPI_connect_call_def split: if_splits)
  moreover have "api_connector t = Some j \<and> api_connecting t"
    if "live i s" "live j t" "j \<noteq> i"
    using emit_error_replacing [OF o that] by (simp add: t_def s_def)
  moreover have "api_connector u = Some j' \<and> api_connecting u"
    if "live i s" "live j' u" "j' \<noteq> i"
    using emit_timeout_replacing [OF o that] by (simp add: u_def s_def)
  ultimately show ?thesis using one_connection_count [OF o] by blast
qed

lemmas session_defs = session_run_def session_step_def state_of_def call_def listener_calls_def
  RouterOSAPI_connect_call_def RouterOSAPI_close_def
  onConnect_def onError_def onTimeout_def onEnd_def Connector_emit_error_def
  Connector_emit_timeout_def Connector_emit_close_def login_resolved_def login_rejected_def
  endListener_def connectedErrorListener_def destroy_current_def at_def live_def
  Connector_destroy_def Connector_connecting_def RouterOSAPI_new_def

text \<open>
  A Session whose \<open>error\<close> listener connects again. After a timeout of the logged-in
  connection the first Connector is destroyed and the second is not; a \<open>connect\<close>
  then constructs nothing. After a close that has completed, every Connector is
  destroyed and \<open>connect\<close> constructs one.
\<close>

theorem one_live_connector_between_handlers_witness:
  "map k_destroyed (connectors (session_run \<lparr>on_error = Some [ApiConnect], on_close = []\<rparr>
      [Call ApiConnect, SocketConnect 0, LoginResolved 0, Call ApiWrite, SocketTimeout 0]
      RouterOSAPI_new)) = [True, False] \<and>
   length (filter (\<lambda>k. \<not> k_destroyed k)
      (connectors (session_run \<lparr>on_error = Some [ApiConnect], on_close = []\<rparr>
        [Call ApiConnect, SocketConnect 0, LoginResolved 0, Call ApiWrite, SocketTimeout 0]
        RouterOSAPI_new))) \<le> 1 \<and>
   map k_destroyed (connectors (session_run \<lparr>on_error = Some [], on_close = [ApiConnect]\<rparr>
      [Call ApiConnect, SocketConnect 0, LoginRejected 0, Call ApiConnect, Call ApiConnect,
       SocketConnect 1, LoginResolved 1, Call ApiClose, SocketEnd 1]
      RouterOSAPI_new)) = [True, True] \<and>
   length (connectors (RouterOSAPI_connect_call
      (session_run \<lparr>on_error = Some [], on_close = [ApiConnect]\<rparr>
        [Call ApiConnect, SocketConnect 0, LoginRejected 0, Call ApiConnect, Call ApiConnect,
         SocketConnect 1, LoginResolved 1, Call ApiClose, SocketEnd 1]
        RouterOSAPI_new))) = 3 \<and>
   list_all k_destroyed (connectors (session_run \<lparr>on_error = Some [], on_close = [ApiConnect]\<rparr>
        [Call ApiConnect, SocketConnect 0, LoginRejected 0, Call ApiConnect, Call ApiConnect,
         SocketConnect 1, LoginResolved 1, Call ApiClose, SocketEnd 1]
        RouterOSAPI_new)) \<and>
   api_connector (state_of (Connector_emit_error \<lparr>on_error = Some [ApiConnect], on_close = []\<rparr> 0
      (session_run \<lparr>on_error = Some [ApiConnect], on_close = []\<rparr>
        [Call ApiConnect, SocketConnect 0, LoginResolved 0] RouterOSAPI_new))) = Some 1 \<and>
   api_connecting (state_of (Connector_emit_error \<lparr>on_error = Some [ApiConnect], on_close = []\<rparr> 0
      (session_run \<lparr>on_error = Some [ApiConnect], on_close = []\<rparr>
        [Call ApiConnect, SocketConnect 0, LoginResolved 0] RouterOSAPI_new)))"
proof -
  let ?l1 = "\<lparr>on_error = Some [ApiConnect], on_close = []\<rparr>"
  let ?e1 = "[Call ApiConnect, SocketConnect 0, LoginResolved 0, Call ApiWrite, SocketTimeout 0]"
  let ?l2 = "\<lparr>on_error = Some [], on_close = [ApiConnect]\<rparr>"
  let ?e2 = "[Call ApiConnect, SocketConnect 0, LoginRejected 0, Call ApiConnect, Call ApiConnect,
              SocketConnect 1, LoginResolved 1, Call ApiClose, SocketEnd 1]"
  let ?e3 = "[Call ApiConnect, SocketConnect 0, LoginResolved 0]"
  have d1: "map k_destroyed (connectors (session_run ?l1 ?e1 RouterOSAPI_new)) = [True, False]"
    by (simp add: session_defs Let_def)
  have d2: "map k_destroyed (connectors (session_run ?l2 ?e2 RouterOSAPI_new)) = [True, True]"
    by (simp add: session_defs Let_def)
  have g2: "length (connectors (RouterOSAPI_connect_call (session_run ?l2 ?e2 RouterOSAPI_new)))
      = 3"
    by (simp add: session_defs Let_def)
  from d2 have n2: "length (connectors (session_run ?l2 ?e2 RouterOSAPI_new)) = 2"
    by (metis length_map length_Cons list.size(3) numeral_2_eq_2)
  have h1: "on_error ?l1 \<noteq> None" and h2: "on_error ?l2 \<noteq> None" by simp_all
  have l3: "live 0 (session_run ?l1 ?e3 RouterOSAPI_new)"
    "live 1 (state_of (Connector_emit_error ?l1 0 (session_run ?l1 ?e3 RouterOSAPI_new)))"
    by (simp_all add: session_defs Let_def)
  from one_live_connector_between_handlers [OF h1, of ?e1]
  have a1: "length (filter (\<lambda>k. \<not> k_destroyed k)
      (connectors (session_run ?l1 ?e1 RouterOSAPI_new))) \<le> 1"
    by blast
  from one_live_connector_between_handlers [OF h2, of ?e2] g2 n2
  have a2: "list_all k_destroyed (connectors (session_run ?l2 ?e2 RouterOSAPI_new))"
    by (simp add: list_all_iff)
  from one_live_connector_between_handlers [OF h1, of ?e3 0 1] l3
  have a3: "api_connector (state_of (Connector_emit_error ?l1 0
        (session_run ?l1 ?e3 RouterOSAPI_new))) = Some 1"
    "api_connecting (state_of (Connector_emit_error ?l1 0
        (session_run ?l1 ?e3 RouterOSAPI_new)))"
    by simp_all
  from d1 a1 d2 g2 a2 a3 show ?thesis by blast
qed

text \<open>
  Claim C7 as stated fails inside the handler of a socket error. The Session is
  logged in and its \<open>error\<close> listener calls \<open>connect\<close>. When that listener returns, and
  \<open>Connector.onError\<close> has not yet reached \<open>destroy()\<close>, the Session has constructed a
  second Connector and the first is not destroyed.
\<close>

theorem connect_in_error_listener_counterexample:
  "map k_destroyed (connectors (state_of
      (Connector_emit_error \<lparr>on_error = Some [ApiConnect], on_close = []\<rparr> 0
        (session_run \<lparr>on_error = Some [ApiConnect], on_close = []\<rparr>
           [Call ApiConnect, SocketConnect 0, LoginResolved 0] RouterOSAPI_new))))
     = [False, False] \<and>
   length (filter (\<lambda>k. \<not> k_destroyed k) (connectors (state_of
      (Connector_emit_error \<lparr>on_error = Some [ApiConnect], on_close = []\<rparr> 0
        (session_run \<lparr>on_error = Some [ApiConnect], on_close = []\<rparr>
           [Call ApiConnect, SocketConnect 0, LoginResolved 0] RouterOSAPI_new))))) = 2"
  by (simp add: session_defs Let_def)

text \<open>
  Without a listener on the Session's \<open>error\<close> event, a timeout after the login
  throws from \<open>connectedErrorListener\<close> before the Connector's \<open>destroy()\<close>: the flags
  are cleared and the Connector is left as it is. In a process that goes on, the next
  \<open>connect\<close> constructs a second Connector beside it.
\<close>

lemma timeout_without_error_listener:
  "session_step \<lparr>on_error = None, on_close = []\<rparr> (SocketTimeout 0)
     (session_run \<lparr>on_error = None, on_close = []\<rparr>
        [Call ApiConnect, SocketConnect 0, LoginResolved 0] RouterOSAPI_new)
     = Thrown (at 0 (\<lambda>k. k\<lparr>on_timeout_connected := False, sock_timeout := False\<rparr>)
        ((session_run \<lparr>on_error = None, on_close = []\<rparr>
            [Call ApiConnect, SocketConnect 0, LoginResolved 0] RouterOSAPI_new)
           \<lparr>api_connected := False, api_connecting := False\<rparr>)) \<and>
   map k_destroyed (connectors (session_run \<lparr>on_error = None, on_close = []\<rparr>
      [Call ApiConnect, SocketConnect 0, LoginResolved 0, SocketTimeout 0, Call ApiConnect]
      RouterOSAPI_new)) = [False, False]"
  by (simp add: session_defs Let_def)

end
